theory Spec2Isabelle
  imports Main
begin

section \<open>Segment tree with range updates (lazy propagation)\<close>

text \<open>
  The development embeds \<^verbatim>\<open>Section-3-Data-Structures/3.3.2 Segment Tree (Range Update).cpp\<close>.
  The class \<^verbatim>\<open>segment_tree\<close> keeps an \<^verbatim>\<open>int len\<close> and three vectors
  (\<^verbatim>\<open>value\<close>, \<^verbatim>\<open>delta\<close>, \<^verbatim>\<open>pending\<close>) of \<open>4*len\<close> slots that hold an implicit binary
  tree: node \<open>i\<close> has the children \<open>2*i + 1\<close> and \<open>2*i + 2\<close>.

  Modelling decisions.
  \<^item> The object is a record; every member function takes the record and returns the
    new one.
  \<^item> \<^verbatim>\<open>operator[]\<close> of a vector outside \<open>[0, size)\<close> is undefined behaviour in the
    source. The model checks every subscript and returns \<open>Inl OutOfBounds\<close> there, so
    a result \<open>Inr\<close> says that every subscript of the call was inside its vector.
  \<^item> The recursions \<^verbatim>\<open>build\<close>, \<^verbatim>\<open>query\<close>, \<^verbatim>\<open>update\<close> need not return for arguments
    with \<open>lo > hi\<close>; they are partial functions into \<open>option\<close>, where \<open>None\<close> is a
    call that does not return.
  \<^item> \<^verbatim>\<open>int\<close> is modelled by unbounded integers with the truncating division of C++.
    This agrees with a 32-bit \<^verbatim>\<open>int\<close> as long as \<open>4*len\<close> fits: all node numbers
    of a successful call are below \<open>4*len\<close> and all bounds are below \<open>len\<close>.
  \<^item> The three static functions \<^verbatim>\<open>join_values\<close>, \<^verbatim>\<open>join_value_with_delta\<close>,
    \<^verbatim>\<open>join_deltas\<close> are the configuration the header comment tells the user to
    replace; they are a parameter of the model, with the code's default and the
    documented sum/increment variant as instances.
\<close>

subsection \<open>Vectors and failure\<close>

datatype error = OutOfBounds | LengthError

definition vector_get :: "'b list \<Rightarrow> int \<Rightarrow> error + 'b" where
  "vector_get xs i = (if 0 \<le> i \<and> i < int (length xs) then Inr (xs ! nat i) else Inl OutOfBounds)"

definition vector_set :: "'b list \<Rightarrow> int \<Rightarrow> 'b \<Rightarrow> error + 'b list" where
  "vector_set xs i v =
     (if 0 \<le> i \<and> i < int (length xs) then Inr (xs[nat i := v]) else Inl OutOfBounds)"

definition bindE :: "error + 'b \<Rightarrow> ('b \<Rightarrow> error + 'c) \<Rightarrow> error + 'c" where
  "bindE m f = (case m of Inl e \<Rightarrow> Inl e | Inr x \<Rightarrow> f x)"

definition bindO :: "(error + 'b) option \<Rightarrow> ('b \<Rightarrow> (error + 'c) option) \<Rightarrow> (error + 'c) option" where
  "bindO m f = Option.bind m (\<lambda>r. case r of Inl e \<Rightarrow> Some (Inl e) | Inr x \<Rightarrow> f x)"

lemma bindO_mono [partial_function_mono]:
  assumes mf: "mono_option B" and mg: "\<And>y. mono_option (\<lambda>f. C y f)"
  shows "mono_option (\<lambda>f. bindO (B f) (\<lambda>y. C y f))"
  unfolding bindO_def
proof (rule bind_mono [OF mf])
  fix r :: "error + 'c"
  show "mono_option (\<lambda>f. case r of Inl e \<Rightarrow> Some (Inl e) | Inr x \<Rightarrow> C x f)"
    by (cases r) (simp_all add: mg option.const_mono)
qed

text \<open>Integer division of C++ truncates toward zero.\<close>

definition cdiv :: "int \<Rightarrow> int \<Rightarrow> int" where
  "cdiv a b = sgn a * sgn b * (\<bar>a\<bar> div \<bar>b\<bar>)"

subsection \<open>The three static functions\<close>

record 'a ops =
  join_values :: "'a \<Rightarrow> 'a \<Rightarrow> 'a"
  join_value_with_delta :: "'a \<Rightarrow> 'a \<Rightarrow> int \<Rightarrow> 'a"
  join_deltas :: "'a \<Rightarrow> 'a \<Rightarrow> 'a"

text \<open>The code as it stands: minimum queries, "set" updates.\<close>

definition default_ops :: "('a::linorder) ops" where
  "default_ops =
     \<lparr>join_values = (\<lambda>a b. min a b),
      join_value_with_delta = (\<lambda>v d len. d),
      join_deltas = (\<lambda>d1 d2. d2)\<rparr>"

text \<open>The variant of the header comment: sum queries, "increment" updates.\<close>

definition sum_ops :: "int ops" where
  "sum_ops =
     \<lparr>join_values = (\<lambda>a b. a + b),
      join_value_with_delta = (\<lambda>v d len. v + d * len),
      join_deltas = (\<lambda>d1 d2. d1 + d2)\<rparr>"

subsection \<open>The class\<close>

record 'a segment_tree =
  len :: int
  "value" :: "'a list"
  delta :: "'a list"
  pending :: "bool list"

text \<open>\<^verbatim>\<open>build(i, lo, hi, v)\<close>\<close>

partial_function (option) build_fill ::
  "'a ops \<Rightarrow> int \<Rightarrow> int \<Rightarrow> int \<Rightarrow> 'a \<Rightarrow> 'a segment_tree \<Rightarrow> (error + 'a segment_tree) option"
where
  "build_fill ops i lo hi v t =
     (if lo = hi then
        Some (bindE (vector_set (value t) i v) (\<lambda>vs. Inr (t\<lparr>value := vs\<rparr>)))
      else
        bindO (build_fill ops (i*2 + 1) lo (cdiv (lo + hi) 2) v t) (\<lambda>t1.
        bindO (build_fill ops (i*2 + 2) (cdiv (lo + hi) 2 + 1) hi v t1) (\<lambda>t2.
        Some (bindE (vector_get (value t2) (i*2 + 1)) (\<lambda>a.
              bindE (vector_get (value t2) (i*2 + 2)) (\<lambda>b.
              bindE (vector_set (value t2) i (join_values ops a b)) (\<lambda>vs.
              Inr (t2\<lparr>value := vs\<rparr>))))))))"

text \<open>\<^verbatim>\<open>build(i, lo, hi, arr)\<close>: the iterator is a list, \<^verbatim>\<open>*(arr + lo)\<close> a checked read.\<close>

partial_function (option) build_iter ::
  "'a ops \<Rightarrow> int \<Rightarrow> int \<Rightarrow> int \<Rightarrow> 'a list \<Rightarrow> 'a segment_tree \<Rightarrow> (error + 'a segment_tree) option"
where
  "build_iter ops i lo hi arr t =
     (if lo = hi then
        Some (bindE (vector_get arr lo) (\<lambda>v.
              bindE (vector_set (value t) i v) (\<lambda>vs. Inr (t\<lparr>value := vs\<rparr>))))
      else
        bindO (build_iter ops (i*2 + 1) lo (cdiv (lo + hi) 2) arr t) (\<lambda>t1.
        bindO (build_iter ops (i*2 + 2) (cdiv (lo + hi) 2 + 1) hi arr t1) (\<lambda>t2.
        Some (bindE (vector_get (value t2) (i*2 + 1)) (\<lambda>a.
              bindE (vector_get (value t2) (i*2 + 2)) (\<lambda>b.
              bindE (vector_set (value t2) i (join_values ops a b)) (\<lambda>vs.
              Inr (t2\<lparr>value := vs\<rparr>))))))))"

text \<open>
  \<^verbatim>\<open>update_delta(i, d, lo, hi)\<close>. The callers pass \<^verbatim>\<open>delta[i]\<close> by reference; the
  function writes \<^verbatim>\<open>delta[2*i + 1]\<close> and \<^verbatim>\<open>delta[2*i + 2]\<close> only, which are other
  slots for every \<open>i \<ge> 0\<close>, so passing the value is the same.
\<close>

definition update_delta ::
  "'a ops \<Rightarrow> int \<Rightarrow> 'a \<Rightarrow> int \<Rightarrow> int \<Rightarrow> 'a segment_tree \<Rightarrow> error + 'a segment_tree"
where
  "update_delta ops i d lo hi t =
     bindE (vector_get (pending t) i) (\<lambda>p.
     bindE
       (if p then
          bindE (vector_get (value t) i) (\<lambda>v.
          bindE (vector_set (value t) i (join_value_with_delta ops v d (hi - lo + 1))) (\<lambda>vs.
          if lo \<noteq> hi then
            bindE (vector_get (pending t) (2*i + 1)) (\<lambda>pl.
            bindE (if pl then bindE (vector_get (delta t) (2*i + 1)) (\<lambda>dl. Inr (join_deltas ops dl d))
                   else Inr d) (\<lambda>nl.
            bindE (vector_set (delta t) (2*i + 1) nl) (\<lambda>ds1.
            bindE (vector_get (pending t) (2*i + 2)) (\<lambda>pr.
            bindE (if pr then bindE (vector_get ds1 (2*i + 2)) (\<lambda>dr. Inr (join_deltas ops dr d))
                   else Inr d) (\<lambda>nr.
            bindE (vector_set ds1 (2*i + 2) nr) (\<lambda>ds2.
            bindE (vector_set (pending t) (2*i + 2) True) (\<lambda>ps1.
            bindE (vector_set ps1 (2*i + 1) True) (\<lambda>ps2.
            Inr (t\<lparr>value := vs, delta := ds2, pending := ps2\<rparr>)))))))))
          else Inr (t\<lparr>value := vs\<rparr>)))
        else Inr t) (\<lambda>t1.
     bindE (vector_set (pending t1) i False) (\<lambda>ps. Inr (t1\<lparr>pending := ps\<rparr>))))"

text \<open>
  The private \<^verbatim>\<open>query(i, lo, hi, tgt_lo, tgt_hi)\<close>. C++ leaves the order of the two
  recursive calls in \<^verbatim>\<open>join_values(query(...), query(...))\<close> open; the model runs the
  left one first.
\<close>

partial_function (option) query_rec ::
  "'a ops \<Rightarrow> int \<Rightarrow> int \<Rightarrow> int \<Rightarrow> int \<Rightarrow> int \<Rightarrow> 'a segment_tree
     \<Rightarrow> (error + 'a \<times> 'a segment_tree) option"
where
  "query_rec ops i lo hi tgt_lo tgt_hi t =
     bindO (Some (vector_get (delta t) i)) (\<lambda>di.
     bindO (Some (update_delta ops i di lo hi t)) (\<lambda>t1.
     if lo = tgt_lo \<and> hi = tgt_hi then
       Some (bindE (vector_get (value t1) i) (\<lambda>v. Inr (v, t1)))
     else if tgt_lo \<le> cdiv (lo + hi) 2 \<and> cdiv (lo + hi) 2 < tgt_hi then
       bindO (query_rec ops (i*2 + 1) lo (cdiv (lo + hi) 2)
                tgt_lo (min tgt_hi (cdiv (lo + hi) 2)) t1) (\<lambda>(a, t2).
       bindO (query_rec ops (i*2 + 2) (cdiv (lo + hi) 2 + 1) hi
                (max tgt_lo (cdiv (lo + hi) 2 + 1)) tgt_hi t2) (\<lambda>(b, t3).
       Some (Inr (join_values ops a b, t3))))
     else if tgt_lo \<le> cdiv (lo + hi) 2 then
       query_rec ops (i*2 + 1) lo (cdiv (lo + hi) 2) tgt_lo (min tgt_hi (cdiv (lo + hi) 2)) t1
     else
       query_rec ops (i*2 + 2) (cdiv (lo + hi) 2 + 1) hi
         (max tgt_lo (cdiv (lo + hi) 2 + 1)) tgt_hi t1))"

text \<open>The private \<^verbatim>\<open>update(i, lo, hi, tgt_lo, tgt_hi, d)\<close>.\<close>

partial_function (option) update_rec ::
  "'a ops \<Rightarrow> int \<Rightarrow> int \<Rightarrow> int \<Rightarrow> int \<Rightarrow> int \<Rightarrow> 'a \<Rightarrow> 'a segment_tree
     \<Rightarrow> (error + 'a segment_tree) option"
where
  "update_rec ops i lo hi tgt_lo tgt_hi d t =
     bindO (Some (vector_get (delta t) i)) (\<lambda>di.
     bindO (Some (update_delta ops i di lo hi t)) (\<lambda>t1.
     if hi < tgt_lo \<or> lo > tgt_hi then Some (Inr t1)
     else if tgt_lo \<le> lo \<and> hi \<le> tgt_hi then
       Some (bindE (vector_set (pending t1) i True) (\<lambda>ps.
             update_delta ops i d lo hi (t1\<lparr>pending := ps\<rparr>)))
     else
       bindO (update_rec ops (2*i + 1) lo (cdiv (lo + hi) 2) tgt_lo tgt_hi d t1) (\<lambda>t2.
       bindO (update_rec ops (2*i + 2) (cdiv (lo + hi) 2 + 1) hi tgt_lo tgt_hi d t2) (\<lambda>t3.
       Some (bindE (vector_get (value t3) (2*i + 1)) (\<lambda>a.
             bindE (vector_get (value t3) (2*i + 2)) (\<lambda>b.
             bindE (vector_set (value t3) i (join_values ops a b)) (\<lambda>vs.
             Inr (t3\<lparr>value := vs\<rparr>)))))))))"

declare build_fill.simps [code] build_iter.simps [code] query_rec.simps [code]
  update_rec.simps [code]

text \<open>
  The constructors. \<^verbatim>\<open>resize(4*len)\<close> fills with \<^verbatim>\<open>T()\<close>, which is \<open>0\<close> for the
  numerical types the code is written for; a negative \<open>4*len\<close> converts to a size no
  vector can have, and \<^verbatim>\<open>resize\<close> throws.
\<close>

definition segment_tree_fill :: "('a::zero) ops \<Rightarrow> int \<Rightarrow> 'a \<Rightarrow> (error + 'a segment_tree) option" where
  "segment_tree_fill ops n v =
     (if 4*n < 0 then Some (Inl LengthError)
      else build_fill ops 0 0 (n - 1) v
             \<lparr>len = n, value = replicate (nat (4*n)) 0, delta = replicate (nat (4*n)) 0,
              pending = replicate (nat (4*n)) False\<rparr>)"

definition segment_tree_iter :: "('a::zero) ops \<Rightarrow> 'a list \<Rightarrow> (error + 'a segment_tree) option" where
  "segment_tree_iter ops arr =
     build_iter ops 0 0 (int (length arr) - 1) arr
       \<lparr>len = int (length arr), value = replicate (4 * length arr) 0,
        delta = replicate (4 * length arr) 0, pending = replicate (4 * length arr) False\<rparr>"

text \<open>The public member functions.\<close>

definition size_tree :: "'a segment_tree \<Rightarrow> int" where
  "size_tree t = len t"

definition query :: "'a ops \<Rightarrow> 'a segment_tree \<Rightarrow> int \<Rightarrow> int \<Rightarrow> (error + 'a \<times> 'a segment_tree) option" where
  "query ops t lo hi = query_rec ops 0 0 (len t - 1) lo hi t"

definition at :: "'a ops \<Rightarrow> 'a segment_tree \<Rightarrow> int \<Rightarrow> (error + 'a \<times> 'a segment_tree) option" where
  "at ops t i = query ops t i i"

definition update_range :: "'a ops \<Rightarrow> 'a segment_tree \<Rightarrow> int \<Rightarrow> int \<Rightarrow> 'a \<Rightarrow> (error + 'a segment_tree) option" where
  "update_range ops t lo hi d = update_rec ops 0 0 (len t - 1) lo hi d t"

definition update_point :: "'a ops \<Rightarrow> 'a segment_tree \<Rightarrow> int \<Rightarrow> 'a \<Rightarrow> (error + 'a segment_tree) option" where
  "update_point ops t i d = update_rec ops 0 0 (len t - 1) i i d t"

section \<open>Notions for stating and proving the properties\<close>

text \<open>
  The nodes below node \<open>i\<close> in the numbering \<open>2*i + 1\<close>, \<open>2*i + 2\<close>, the node itself
  included: \<open>k\<close> levels down they are the numbers \<open>j\<close> with
  \<open>(i + 1) * 2^k \<le> j + 1 < (i + 2) * 2^k\<close>.
\<close>

definition desc :: "int \<Rightarrow> int set" where
  "desc i = {j. \<exists>k::nat. (i + 1) * 2 ^ k \<le> j + 1 \<and> j + 1 < (i + 2) * 2 ^ k}"

text \<open>
  \<open>fits N i lo hi\<close>: every node of the subtree that the recursion visits from node
  \<open>i\<close> with span \<open>[lo, hi]\<close> has a number in \<open>[0, N)\<close>.
\<close>

function fits :: "int \<Rightarrow> int \<Rightarrow> int \<Rightarrow> int \<Rightarrow> bool" where
  "fits N i lo hi =
     (0 \<le> i \<and> i < N \<and>
      (lo < hi \<longrightarrow> fits N (2*i + 1) lo ((lo + hi) div 2) \<and> fits N (2*i + 2) ((lo + hi) div 2 + 1) hi))"
  by pat_completeness auto
termination
  by (relation "measure (\<lambda>(N, i, lo, hi). nat (hi - lo))") auto

declare fits.simps [simp del]

text \<open>The slots of the three vectors by node number, and the common length of the vectors.\<close>

definition val :: "'a segment_tree \<Rightarrow> int \<Rightarrow> 'a" where
  "val t j = value t ! nat j"

definition dl :: "'a segment_tree \<Rightarrow> int \<Rightarrow> 'a" where
  "dl t j = delta t ! nat j"

definition pd :: "'a segment_tree \<Rightarrow> int \<Rightarrow> bool" where
  "pd t j = pending t ! nat j"

definition sized :: "int \<Rightarrow> 'a segment_tree \<Rightarrow> bool" where
  "sized N t =
     (int (length (value t)) = N \<and> int (length (delta t)) = N \<and> int (length (pending t)) = N)"

text \<open>What \<^verbatim>\<open>update_delta\<close> leaves behind when all its subscripts are inside the vectors.\<close>

definition push :: "'a ops \<Rightarrow> int \<Rightarrow> 'a \<Rightarrow> int \<Rightarrow> int \<Rightarrow> 'a segment_tree \<Rightarrow> 'a segment_tree" where
  "push ops i d lo hi t =
     (if pd t i then
        t\<lparr>value := (value t)[nat i := join_value_with_delta ops (val t i) d (hi - lo + 1)],
          delta := (if lo \<noteq> hi then
                      (delta t)[nat (2*i + 1) := (if pd t (2*i + 1) then join_deltas ops (dl t (2*i + 1)) d else d),
                                nat (2*i + 2) := (if pd t (2*i + 2) then join_deltas ops (dl t (2*i + 2)) d else d)]
                    else delta t),
          pending := (if lo \<noteq> hi then (pending t)[nat (2*i + 2) := True, nat (2*i + 1) := True]
                      else pending t)[nat i := False]\<rparr>
      else t)"

text \<open>
  A pending delta of a node is still to be applied, with span 1, to every leaf below
  it. \<open>lvals\<close> lists the leaves of the subtree of node \<open>i\<close> (span \<open>[lo, hi]\<close>) with the
  pending deltas of that subtree applied, the deepest first.
\<close>

definition own :: "'a ops \<Rightarrow> 'a segment_tree \<Rightarrow> int \<Rightarrow> 'a \<Rightarrow> 'a" where
  "own ops t i v = (if pd t i then join_value_with_delta ops v (dl t i) 1 else v)"

function lvals :: "'a ops \<Rightarrow> 'a segment_tree \<Rightarrow> int \<Rightarrow> int \<Rightarrow> int \<Rightarrow> 'a list" where
  "lvals ops t i lo hi =
     map (own ops t i)
       (if lo < hi then lvals ops t (2*i + 1) lo ((lo + hi) div 2) @
                        lvals ops t (2*i + 2) ((lo + hi) div 2 + 1) hi
        else [val t i])"
  by pat_completeness auto
termination
  by (relation "measure (\<lambda>(ops, t, i, lo, hi). nat (hi - lo))") auto

declare lvals.simps [simp del]

definition base :: "'a ops \<Rightarrow> 'a segment_tree \<Rightarrow> int \<Rightarrow> int \<Rightarrow> int \<Rightarrow> 'a list" where
  "base ops t i lo hi =
     (if lo < hi then lvals ops t (2*i + 1) lo ((lo + hi) div 2) @
                      lvals ops t (2*i + 2) ((lo + hi) div 2 + 1) hi
      else [val t i])"

definition holds :: "'a ops \<Rightarrow> 'a segment_tree \<Rightarrow> int \<Rightarrow> int \<Rightarrow> int \<Rightarrow> (int \<Rightarrow> 'a) \<Rightarrow> bool" where
  "holds ops t i lo hi A = (lvals ops t i lo hi = map A [lo..hi])"

text \<open>The aggregate a node stands for, and the invariant of the stored aggregates.\<close>

definition eff :: "'a ops \<Rightarrow> 'a segment_tree \<Rightarrow> int \<Rightarrow> int \<Rightarrow> int \<Rightarrow> 'a" where
  "eff ops t i lo hi =
     (if pd t i then join_value_with_delta ops (val t i) (dl t i) (hi - lo + 1) else val t i)"

function good :: "'a ops \<Rightarrow> 'a segment_tree \<Rightarrow> int \<Rightarrow> int \<Rightarrow> int \<Rightarrow> bool" where
  "good ops t i lo hi =
     (lo < hi \<longrightarrow>
        good ops t (2*i + 1) lo ((lo + hi) div 2) \<and>
        good ops t (2*i + 2) ((lo + hi) div 2 + 1) hi \<and>
        val t i = join_values ops (eff ops t (2*i + 1) lo ((lo + hi) div 2))
                                  (eff ops t (2*i + 2) ((lo + hi) div 2 + 1) hi))"
  by pat_completeness auto
termination
  by (relation "measure (\<lambda>(ops, t, i, lo, hi). nat (hi - lo))") auto

declare good.simps [simp del]

text \<open>Agreement of two states on a set of slots; \<open>frame X\<close>: nothing outside \<open>X\<close> changed.\<close>

definition agree_val :: "int set \<Rightarrow> 'a segment_tree \<Rightarrow> 'a segment_tree \<Rightarrow> bool" where
  "agree_val X t t' = (\<forall>j\<in>X. val t' j = val t j)"

definition agree_lazy :: "int set \<Rightarrow> 'a segment_tree \<Rightarrow> 'a segment_tree \<Rightarrow> bool" where
  "agree_lazy X t t' = (\<forall>j\<in>X. dl t' j = dl t j \<and> pd t' j = pd t j)"

definition frame :: "int set \<Rightarrow> 'a segment_tree \<Rightarrow> 'a segment_tree \<Rightarrow> bool" where
  "frame X t t' = (agree_val ({j. 0 \<le> j} - X) t t' \<and> agree_lazy ({j. 0 \<le> j} - X) t t')"

text \<open>
  \<open>compose_ok\<close> is the third contract of the header comment for two deltas: a joined
  delta acts on a single value as the two deltas in sequence. \<open>algebra_ok\<close> is what
  the stored aggregates need: \<^verbatim>\<open>join_values\<close> associative, \<^verbatim>\<open>join_value_with_delta\<close>
  distributing over \<^verbatim>\<open>join_values\<close> with the spans adding up, and joined deltas
  acting as the sequence on an aggregate of any span. Both instances satisfy both.
\<close>

definition compose_ok :: "'a ops \<Rightarrow> bool" where
  "compose_ok ops =
     (\<forall>v d1 d2. join_value_with_delta ops (join_value_with_delta ops v d1 1) d2 1
                = join_value_with_delta ops v (join_deltas ops d1 d2) 1)"

definition algebra_ok :: "'a ops \<Rightarrow> bool" where
  "algebra_ok ops =
     ((\<forall>a b c. join_values ops a (join_values ops b c) = join_values ops (join_values ops a b) c) \<and>
      (\<forall>a b d m k. 1 \<le> m \<and> 1 \<le> k \<longrightarrow>
          join_value_with_delta ops (join_values ops a b) d (m + k)
          = join_values ops (join_value_with_delta ops a d m) (join_value_with_delta ops b d k)) \<and>
      (\<forall>v d1 d2 m. 1 \<le> m \<longrightarrow>
          join_value_with_delta ops (join_value_with_delta ops v d1 m) d2 m
          = join_value_with_delta ops v (join_deltas ops d1 d2) m))"

text \<open>\<^verbatim>\<open>join_values\<close> joined over a non-empty list, as the documentation of \<^verbatim>\<open>query\<close> has it.\<close>

fun join_list :: "('a \<Rightarrow> 'a \<Rightarrow> 'a) \<Rightarrow> 'a list \<Rightarrow> 'a" where
  "join_list f [x] = x"
| "join_list f (x # y # ys) = f x (join_list f (y # ys))"

text \<open>Writing one slot of \<^verbatim>\<open>value\<close>, and setting one flag of \<^verbatim>\<open>pending\<close>.\<close>

definition setval :: "'a segment_tree \<Rightarrow> int \<Rightarrow> 'a \<Rightarrow> 'a segment_tree" where
  "setval t i v = t\<lparr>value := (value t)[nat i := v]\<rparr>"

definition setpd :: "'a segment_tree \<Rightarrow> int \<Rightarrow> 'a segment_tree" where
  "setpd t i = t\<lparr>pending := (pending t)[nat i := True]\<rparr>"

text \<open>What an update with delta \<open>d\<close> on the target range \<open>[ql, qh]\<close> does to the array.\<close>

definition upd :: "'a ops \<Rightarrow> int \<Rightarrow> int \<Rightarrow> 'a \<Rightarrow> (int \<Rightarrow> 'a) \<Rightarrow> int \<Rightarrow> 'a" where
  "upd ops ql qh d A = (\<lambda>j. if ql \<le> j \<and> j \<le> qh then join_value_with_delta ops (A j) d 1 else A j)"

text \<open>
  The public calls as data, the calls with arguments in range, running a call and a
  list of calls, and the state after construction from \<open>arr\<close> and a list of calls.
\<close>

datatype 'a call = At int | Query int int | UpdatePoint int 'a | UpdateRange int int 'a

fun valid_call :: "int \<Rightarrow> 'a call \<Rightarrow> bool" where
  "valid_call n (At i) = (0 \<le> i \<and> i < n)"
| "valid_call n (Query lo hi) = (0 \<le> lo \<and> lo \<le> hi \<and> hi < n)"
| "valid_call n (UpdatePoint i d) = (0 \<le> i \<and> i < n)"
| "valid_call n (UpdateRange lo hi d) = (0 \<le> lo \<and> lo \<le> hi \<and> hi < n)"

fun exec :: "'a ops \<Rightarrow> 'a call \<Rightarrow> 'a segment_tree \<Rightarrow> (error + 'a segment_tree) option" where
  "exec ops (At i) t = bindO (at ops t i) (\<lambda>(r, t'). Some (Inr t'))"
| "exec ops (Query lo hi) t = bindO (query ops t lo hi) (\<lambda>(r, t'). Some (Inr t'))"
| "exec ops (UpdatePoint i d) t = update_point ops t i d"
| "exec ops (UpdateRange lo hi d) t = update_range ops t lo hi d"

fun run :: "'a ops \<Rightarrow> 'a call list \<Rightarrow> 'a segment_tree \<Rightarrow> (error + 'a segment_tree) option" where
  "run ops [] t = Some (Inr t)"
| "run ops (c # cs) t = bindO (exec ops c t) (run ops cs)"

definition reach :: "('a::zero) ops \<Rightarrow> 'a list \<Rightarrow> 'a call list \<Rightarrow> (error + 'a segment_tree) option" where
  "reach ops arr cs = bindO (segment_tree_iter ops arr) (run ops cs)"

text \<open>The value at index \<open>j\<close> after a call, and after a history of calls, by the documentation.\<close>

fun effect :: "'a ops \<Rightarrow> 'a call \<Rightarrow> int \<Rightarrow> 'a \<Rightarrow> 'a" where
  "effect ops (UpdateRange lo hi d) j v = (if lo \<le> j \<and> j \<le> hi then join_value_with_delta ops v d 1 else v)"
| "effect ops (UpdatePoint i d) j v = (if j = i then join_value_with_delta ops v d 1 else v)"
| "effect ops (At i) j v = v"
| "effect ops (Query lo hi) j v = v"

definition logical :: "'a ops \<Rightarrow> 'a call list \<Rightarrow> int \<Rightarrow> 'a \<Rightarrow> 'a" where
  "logical ops cs j v = foldl (\<lambda>v c. effect ops c j v) v cs"

text \<open>The shape every reachable state has: size, vector lengths, no pending delta at the root.\<close>

definition shaped :: "int \<Rightarrow> 'a segment_tree \<Rightarrow> bool" where
  "shaped n t = (1 \<le> n \<and> len t = n \<and> sized (4 * n) t \<and> \<not> pd t 0)"

text \<open>
  \<open>push_all\<close> applies the resolve rule (\<^verbatim>\<open>update_delta\<close> with the node's own delta) to a
  node and then to its subtrees. \<open>leaves\<close> lists the stored values of the leaves,
  \<open>aggregates_ok\<close> says that every internal node stores \<^verbatim>\<open>join_values\<close> of the values
  stored in its two children, \<open>no_pending\<close> that no flag is set in the subtree.
\<close>

function push_all :: "'a ops \<Rightarrow> int \<Rightarrow> int \<Rightarrow> int \<Rightarrow> 'a segment_tree \<Rightarrow> error + 'a segment_tree" where
  "push_all ops i lo hi t =
     (case vector_get (delta t) i of
        Inl e \<Rightarrow> Inl e
      | Inr d \<Rightarrow>
          (case update_delta ops i d lo hi t of
             Inl e \<Rightarrow> Inl e
           | Inr t1 \<Rightarrow>
               if lo < hi then
                 (case push_all ops (2*i + 1) lo ((lo + hi) div 2) t1 of
                    Inl e \<Rightarrow> Inl e
                  | Inr t2 \<Rightarrow> push_all ops (2*i + 2) ((lo + hi) div 2 + 1) hi t2)
               else Inr t1))"
  by pat_completeness auto
termination
  by (relation "measure (\<lambda>(ops, i, lo, hi, t). nat (hi - lo))") auto

declare push_all.simps [simp del]

function leaves :: "'a segment_tree \<Rightarrow> int \<Rightarrow> int \<Rightarrow> int \<Rightarrow> 'a list" where
  "leaves t i lo hi =
     (if lo < hi then leaves t (2*i + 1) lo ((lo + hi) div 2) @
                      leaves t (2*i + 2) ((lo + hi) div 2 + 1) hi
      else [val t i])"
  by pat_completeness auto
termination
  by (relation "measure (\<lambda>(t, i, lo, hi). nat (hi - lo))") auto

declare leaves.simps [simp del]

function aggregates_ok :: "'a ops \<Rightarrow> 'a segment_tree \<Rightarrow> int \<Rightarrow> int \<Rightarrow> int \<Rightarrow> bool" where
  "aggregates_ok ops t i lo hi =
     (lo < hi \<longrightarrow>
        aggregates_ok ops t (2*i + 1) lo ((lo + hi) div 2) \<and>
        aggregates_ok ops t (2*i + 2) ((lo + hi) div 2 + 1) hi \<and>
        val t i = join_values ops (val t (2*i + 1)) (val t (2*i + 2)))"
  by pat_completeness auto
termination
  by (relation "measure (\<lambda>(ops, t, i, lo, hi). nat (hi - lo))") auto

declare aggregates_ok.simps [simp del]

function no_pending :: "'a segment_tree \<Rightarrow> int \<Rightarrow> int \<Rightarrow> int \<Rightarrow> bool" where
  "no_pending t i lo hi =
     (\<not> pd t i \<and>
      (lo < hi \<longrightarrow> no_pending t (2*i + 1) lo ((lo + hi) div 2) \<and>
                 no_pending t (2*i + 2) ((lo + hi) div 2 + 1) hi))"
  by pat_completeness auto
termination
  by (relation "measure (\<lambda>(t, i, lo, hi). nat (hi - lo))") auto

declare no_pending.simps [simp del]

text \<open>
  The query with the right recursive call made first, the order the model does not
  take. On the arguments of a range inside the span both orders return the same value
  and the same state (\<open>query_order\<close> below), so the choice does not show.
\<close>

partial_function (option) query_rec_rl ::
  "'a ops \<Rightarrow> int \<Rightarrow> int \<Rightarrow> int \<Rightarrow> int \<Rightarrow> int \<Rightarrow> 'a segment_tree
     \<Rightarrow> (error + 'a \<times> 'a segment_tree) option"
where
  "query_rec_rl ops i lo hi tgt_lo tgt_hi t =
     bindO (Some (vector_get (delta t) i)) (\<lambda>di.
     bindO (Some (update_delta ops i di lo hi t)) (\<lambda>t1.
     if lo = tgt_lo \<and> hi = tgt_hi then
       Some (bindE (vector_get (value t1) i) (\<lambda>v. Inr (v, t1)))
     else if tgt_lo \<le> cdiv (lo + hi) 2 \<and> cdiv (lo + hi) 2 < tgt_hi then
       bindO (query_rec_rl ops (i*2 + 2) (cdiv (lo + hi) 2 + 1) hi
                (max tgt_lo (cdiv (lo + hi) 2 + 1)) tgt_hi t1) (\<lambda>(b, t2).
       bindO (query_rec_rl ops (i*2 + 1) lo (cdiv (lo + hi) 2)
                tgt_lo (min tgt_hi (cdiv (lo + hi) 2)) t2) (\<lambda>(a, t3).
       Some (Inr (join_values ops a b, t3))))
     else if tgt_lo \<le> cdiv (lo + hi) 2 then
       query_rec_rl ops (i*2 + 1) lo (cdiv (lo + hi) 2) tgt_lo (min tgt_hi (cdiv (lo + hi) 2)) t1
     else
       query_rec_rl ops (i*2 + 2) (cdiv (lo + hi) 2 + 1) hi
         (max tgt_lo (cdiv (lo + hi) 2 + 1)) tgt_hi t1))"

declare query_rec_rl.simps [code]

section \<open>Lemmas\<close>

lemma desc_self: "i \<in> desc i"
  unfolding desc_def by (auto intro: exI [of _ 0])

lemma desc_child:
  assumes "c = 2*i + 1 \<or> c = 2*i + 2" and "j \<in> desc c"
  shows "j \<in> desc i"
proof -
  from assms(2) obtain k :: nat where a: "(c + 1) * 2 ^ k \<le> j + 1" and b: "j + 1 < (c + 2) * 2 ^ k"
    unfolding desc_def by blast
  define P :: int where "P = 2 ^ k"
  have P: "0 < P" by (simp add: P_def)
  have e1: "(i + 1) * 2 ^ Suc k = (2*i + 2) * P" by (simp add: P_def algebra_simps)
  have e2: "(i + 2) * 2 ^ Suc k = (2*i + 4) * P" by (simp add: P_def algebra_simps)
  have m1: "(2*i + 2) * P \<le> (c + 1) * P" using assms(1) P by (intro mult_right_mono) auto
  have m2: "(c + 2) * P \<le> (2*i + 4) * P" using assms(1) P by (intro mult_right_mono) auto
  have "(i + 1) * 2 ^ Suc k \<le> j + 1" using a m1 unfolding e1 P_def by linarith
  moreover have "j + 1 < (i + 2) * 2 ^ Suc k" using b m2 unfolding e2 P_def by linarith
  ultimately show ?thesis unfolding desc_def by blast
qed

lemma desc_left: "j \<in> desc (2*i + 1) \<Longrightarrow> j \<in> desc i"
  by (rule desc_child [of "2*i + 1"]) auto

lemma desc_right: "j \<in> desc (2*i + 2) \<Longrightarrow> j \<in> desc i"
  by (rule desc_child [of "2*i + 2"]) auto

lemma desc_ge: assumes "0 \<le> i" "j \<in> desc i" shows "i \<le> j"
proof -
  from assms(2) obtain k :: nat where a: "(i + 1) * 2 ^ k \<le> j + 1" unfolding desc_def by blast
  have "(1::int) \<le> 2 ^ k" by simp
  then have "(i + 1) * 1 \<le> (i + 1) * 2 ^ k" using assms(1) by (intro mult_left_mono) auto
  with a show ?thesis by simp
qed

lemma desc_disjoint:
  assumes i: "0 \<le> i" and l: "j \<in> desc (2*i + 1)" and r: "j \<in> desc (2*i + 2)"
  shows False
proof -
  define a where "a = 2*i + 2"
  have a2: "2 \<le> a" using i by (simp add: a_def)
  have a1: "2*i + 1 + 1 = a" "2*i + 1 + 2 = a + 1" "2*i + 2 + 1 = a + 1" "2*i + 2 + 2 = a + 2"
    by (simp_all add: a_def)
  from l obtain k :: nat where k1: "a * 2 ^ k \<le> j + 1" and k2: "j + 1 < (a + 1) * 2 ^ k"
    unfolding desc_def mem_Collect_eq a1 by blast
  from r obtain m :: nat where m1: "(a + 1) * 2 ^ m \<le> j + 1" and m2: "j + 1 < (a + 2) * 2 ^ m"
    unfolding desc_def mem_Collect_eq a1 by blast
  have lt1: "(a + 1) * 2 ^ m < (a + 1) * 2 ^ k" using m1 k2 by linarith
  have lt2: "a * 2 ^ k < (a + 2) * 2 ^ m" using k1 m2 by linarith
  from lt1 a2 have "(2::int) ^ m < 2 ^ k" by (simp add: mult_less_cancel_left)
  then have "m < k" by simp
  then obtain e where e: "k = Suc (m + e)" using less_imp_Suc_add by blast
  have "(1::int) \<le> 2 ^ e" by simp
  then have "(2::int) * 2 ^ m \<le> 2 ^ k" unfolding e by (simp add: power_add)
  then have "a * (2 * 2 ^ m) \<le> a * 2 ^ k" using a2 by (intro mult_left_mono) auto
  with lt2 have "a * (2 * 2 ^ m) < (a + 2) * 2 ^ m" by linarith
  then have "(2 * a) * 2 ^ m < (a + 2) * 2 ^ m" by (simp add: algebra_simps)
  then have "2 * a < a + 2" by (simp add: mult_less_cancel_right)
  with a2 show False by simp
qed

lemma span_induct [case_names node]:
  assumes step: "\<And>i lo hi.
     (lo < hi \<Longrightarrow> P (2*i + 1) lo ((lo + hi) div 2)) \<Longrightarrow>
     (lo < hi \<Longrightarrow> P (2*i + 2) ((lo + hi) div 2 + 1) hi) \<Longrightarrow> P i lo hi"
  shows "P (i::int) (lo::int) (hi::int)"
proof (induction "nat (hi - lo)" arbitrary: i lo hi rule: less_induct)
  case less
  show ?case
  proof (rule step)
    assume "lo < hi"
    then show "P (2*i + 1) lo ((lo + hi) div 2)" by (intro less) auto
  next
    assume "lo < hi"
    then show "P (2*i + 2) ((lo + hi) div 2 + 1) hi" by (intro less) auto
  qed
qed

text \<open>Node numbers stay below four times the size.\<close>

lemma fits_gen:
  "0 \<le> i \<Longrightarrow> 1 \<le> p \<Longrightarrow> i + 1 < 2 * p \<Longrightarrow> (hi - lo) * p < n \<Longrightarrow> p < 2 * n \<Longrightarrow> fits (4 * n) i lo hi"
proof (induction i lo hi arbitrary: p rule: span_induct)
  case (node i lo hi)
  have here: "0 \<le> i \<and> i < 4 * n" using node.prems by linarith
  show ?case
  proof (cases "lo < hi")
    case False
    then show ?thesis using here by (subst fits.simps) simp
  next
    case True
    let ?m = "(lo + hi) div 2"
    have "1 * p \<le> (hi - lo) * p" using True node.prems(2) by (intro mult_right_mono) auto
    then have pn: "p < n" using node.prems(4) by simp
    have hl: "(?m - lo) * (2 * p) \<le> (hi - lo) * p"
    proof -
      have "(?m - lo) * 2 \<le> hi - lo" by presburger
      then have "((?m - lo) * 2) * p \<le> (hi - lo) * p" using node.prems(2) by (intro mult_right_mono) auto
      then show ?thesis by (simp add: algebra_simps)
    qed
    have hr: "(hi - (?m + 1)) * (2 * p) \<le> (hi - lo) * p"
    proof -
      have "(hi - (?m + 1)) * 2 \<le> hi - lo" by presburger
      then have "((hi - (?m + 1)) * 2) * p \<le> (hi - lo) * p" using node.prems(2) by (intro mult_right_mono) auto
      then show ?thesis by (simp add: algebra_simps)
    qed
    have hl': "(?m - lo) * (2 * p) < n" using hl node.prems(4) by linarith
    have hr': "(hi - (?m + 1)) * (2 * p) < n" using hr node.prems(4) by linarith
    have l: "fits (4 * n) (2*i + 1) lo ?m"
      by (rule node.IH(1) [of "2 * p"]) (use True node.prems pn hl' in linarith)+
    have r: "fits (4 * n) (2*i + 2) (?m + 1) hi"
      by (rule node.IH(2) [of "2 * p"]) (use True node.prems pn hr' in linarith)+
    show ?thesis using here l r by (subst fits.simps) simp
  qed
qed

lemma fits_root: "1 \<le> n \<Longrightarrow> fits (4 * n) 0 0 (n - 1)"
  by (rule fits_gen [of 0 1]) auto

subsection \<open>Reading the vectors\<close>

lemma bindE_simps [simp]:
  "bindE (Inr x) f = f x" "bindE (Inl e) f = Inl e"
  by (simp_all add: bindE_def)

lemma bindO_simps [simp]:
  "bindO (Some (Inr x)) g = g x" "bindO (Some (Inl e)) g = Some (Inl e)" "bindO None g = None"
  by (simp_all add: bindO_def)

lemma vector_get_in: "0 \<le> i \<Longrightarrow> i < int (length xs) \<Longrightarrow> vector_get xs i = Inr (xs ! nat i)"
  by (simp add: vector_get_def)

lemma vector_set_in: "0 \<le> i \<Longrightarrow> i < int (length xs) \<Longrightarrow> vector_set xs i v = Inr (xs[nat i := v])"
  by (simp add: vector_set_def)

lemma nat_inj: "0 \<le> i \<Longrightarrow> 0 \<le> j \<Longrightarrow> nat i = nat j \<longleftrightarrow> i = j"
  by auto

lemma update_delta_push:
  assumes "sized N t" "0 \<le> i" "i < N" "pd t i \<and> lo \<noteq> hi \<longrightarrow> 2*i + 2 < N"
  shows "update_delta ops i d lo hi t = Inr (push ops i d lo hi t)"
proof (cases "pd t i")
  case False
  have "(pending t)[nat i := False] = pending t"
    using False list_update_id [of "pending t" "nat i"] by (simp add: pd_def)
  then show ?thesis
    using assms False
    by (simp add: update_delta_def push_def sized_def vector_get_in vector_set_in pd_def)
next
  case True
  show ?thesis
  proof (cases "lo = hi")
    case True
    then show ?thesis
      using assms \<open>pd t i\<close>
      by (simp add: update_delta_def push_def sized_def vector_get_in vector_set_in pd_def val_def)
  next
    case False
    have ne: "nat (2*i + 1) \<noteq> nat (2*i + 2)" using assms(2) by simp
    show ?thesis
      using assms \<open>pd t i\<close> False ne
      by (simp add: update_delta_def push_def sized_def vector_get_in vector_set_in
          pd_def val_def dl_def)
  qed
qed

lemma sized_push [simp]: "sized N (push ops i d lo hi t) = sized N t"
  by (simp add: push_def sized_def)

lemma len_push [simp]: "len (push ops i d lo hi t) = len t"
  by (simp add: push_def)

lemma pd_push:
  assumes "sized N t" "0 \<le> i" "i < N" "pd t i \<and> lo \<noteq> hi \<longrightarrow> 2*i + 2 < N" "0 \<le> j"
  shows "pd (push ops i d lo hi t) j =
     (if j = i then False
      else if pd t i \<and> lo \<noteq> hi \<and> (j = 2*i + 1 \<or> j = 2*i + 2) then True else pd t j)"
  using assms by (auto simp: push_def pd_def sized_def nth_list_update nat_inj)

lemma val_push:
  assumes "sized N t" "0 \<le> i" "i < N" "0 \<le> j"
  shows "val (push ops i d lo hi t) j =
     (if j = i \<and> pd t i then join_value_with_delta ops (val t i) d (hi - lo + 1) else val t j)"
  using assms by (auto simp: push_def val_def sized_def nth_list_update nat_inj)

lemma dl_push:
  assumes "sized N t" "0 \<le> i" "i < N" "pd t i \<and> lo \<noteq> hi \<longrightarrow> 2*i + 2 < N" "0 \<le> j"
  shows "dl (push ops i d lo hi t) j =
     (if pd t i \<and> lo \<noteq> hi \<and> (j = 2*i + 1 \<or> j = 2*i + 2)
      then (if pd t j then join_deltas ops (dl t j) d else d) else dl t j)"
  using assms by (auto simp: push_def dl_def sized_def nth_list_update nat_inj)

subsection \<open>The array a state stands for\<close>

lemma lvals_base: "lvals ops t i lo hi = map (own ops t i) (base ops t i lo hi)"
  by (subst lvals.simps) (simp add: base_def)

lemma own_clean: "\<not> pd t i \<Longrightarrow> own ops t i = (\<lambda>v. v)"
  by (simp add: own_def fun_eq_iff)

lemma own_pending: "pd t i \<Longrightarrow> own ops t i = (\<lambda>v. join_value_with_delta ops v (dl t i) 1)"
  by (simp add: own_def fun_eq_iff)

lemma lvals_clean: "\<not> pd t i \<Longrightarrow> lvals ops t i lo hi = base ops t i lo hi"
  by (simp add: lvals_base own_clean)

lemma length_lvals: "lo \<le> hi \<Longrightarrow> length (lvals ops t i lo hi) = nat (hi - lo + 1)"
proof (induction i lo hi rule: span_induct)
  case (node i lo hi)
  show ?case
  proof (cases "lo < hi")
    case True
    have "lo \<le> (lo + hi) div 2" "(lo + hi) div 2 + 1 \<le> hi" using True by auto
    with node.IH True show ?thesis by (subst lvals.simps) (simp, linarith)
  next
    case False
    with node.prems show ?thesis by (subst lvals.simps) simp
  qed
qed

lemma desc_child_neq:
  assumes "0 \<le> i" "c = 2*i + 1 \<or> c = 2*i + 2" "j \<in> desc c"
  shows "j \<noteq> i"
  using desc_ge [of c j] assms by auto

lemma desc_nonneg: "0 \<le> i \<Longrightarrow> j \<in> desc i \<Longrightarrow> 0 \<le> j"
  using desc_ge [of i j] by simp

lemma lvals_cong:
  "0 \<le> i \<Longrightarrow> agree_val (desc i) t t' \<Longrightarrow> agree_lazy (desc i) t t' \<Longrightarrow>
   lvals ops t' i lo hi = lvals ops t i lo hi"
proof (induction i lo hi rule: span_induct)
  case (node i lo hi)
  have o: "own ops t' i = own ops t i"
    using node.prems desc_self [of i] by (auto simp: own_def agree_lazy_def fun_eq_iff)
  have v: "val t' i = val t i" using node.prems desc_self [of i] by (simp add: agree_val_def)
  have sub: "agree_val (desc (2*i + 1)) t t'" "agree_lazy (desc (2*i + 1)) t t'"
    "agree_val (desc (2*i + 2)) t t'" "agree_lazy (desc (2*i + 2)) t t'"
    using node.prems(2,3) desc_left [of _ i] desc_right [of _ i]
    by (auto simp: agree_val_def agree_lazy_def)
  show ?case
  proof (cases "lo < hi")
    case True
    have "lvals ops t' (2*i + 1) lo ((lo + hi) div 2) = lvals ops t (2*i + 1) lo ((lo + hi) div 2)"
      using node.prems(1) sub True by (intro node.IH(1)) auto
    moreover have "lvals ops t' (2*i + 2) ((lo + hi) div 2 + 1) hi
        = lvals ops t (2*i + 2) ((lo + hi) div 2 + 1) hi"
      using node.prems(1) sub True by (intro node.IH(2)) auto
    ultimately show ?thesis
      using True o by (subst lvals.simps, subst (2) lvals.simps) simp
  next
    case False
    then show ?thesis using o v by (subst lvals.simps, subst (2) lvals.simps) simp
  qed
qed

lemma agree_children:
  assumes "0 \<le> i" "agree_val (desc i) t t'" "agree_lazy (desc i - {i}) t t'"
    "c = 2*i + 1 \<or> c = 2*i + 2"
  shows "agree_val (desc c) t t'" "agree_lazy (desc c) t t'"
  using assms desc_child [of c i] desc_child_neq [of i c]
  by (auto simp: agree_val_def agree_lazy_def)

lemma base_cong:
  assumes "0 \<le> i" "agree_val (desc i) t t'" "agree_lazy (desc i - {i}) t t'"
  shows "base ops t' i lo hi = base ops t i lo hi"
proof -
  have v: "val t' i = val t i" using assms(2) desc_self [of i] by (simp add: agree_val_def)
  have l: "lvals ops t' (2*i + 1) lo' hi' = lvals ops t (2*i + 1) lo' hi'" for lo' hi'
    using assms agree_children [OF assms, of "2*i + 1"] by (intro lvals_cong) auto
  have r: "lvals ops t' (2*i + 2) lo' hi' = lvals ops t (2*i + 2) lo' hi'" for lo' hi'
    using assms agree_children [OF assms, of "2*i + 2"] by (intro lvals_cong) auto
  show ?thesis by (simp add: base_def v l r)
qed

lemma eff_cong:
  "val t' i = val t i \<Longrightarrow> dl t' i = dl t i \<Longrightarrow> pd t' i = pd t i \<Longrightarrow>
   eff ops t' i lo hi = eff ops t i lo hi"
  by (simp add: eff_def)

lemma good_cong:
  "0 \<le> i \<Longrightarrow> agree_val (desc i) t t' \<Longrightarrow> agree_lazy (desc i - {i}) t t' \<Longrightarrow>
   good ops t' i lo hi = good ops t i lo hi"
proof (induction i lo hi rule: span_induct)
  case (node i lo hi)
  note ch1 = agree_children [OF node.prems, of "2*i + 1"]
  note ch2 = agree_children [OF node.prems, of "2*i + 2"]
  have v: "val t' i = val t i" using node.prems(2) desc_self [of i] by (simp add: agree_val_def)
  show ?case
  proof (cases "lo < hi")
    case True
    have g1: "good ops t' (2*i + 1) lo ((lo + hi) div 2) = good ops t (2*i + 1) lo ((lo + hi) div 2)"
      using node.prems(1) ch1 True by (intro node.IH(1)) (auto simp: agree_lazy_def)
    have g2: "good ops t' (2*i + 2) ((lo + hi) div 2 + 1) hi
        = good ops t (2*i + 2) ((lo + hi) div 2 + 1) hi"
      using node.prems(1) ch2 True by (intro node.IH(2)) (auto simp: agree_lazy_def)
    have e1: "eff ops t' (2*i + 1) lo' hi' = eff ops t (2*i + 1) lo' hi'" for lo' hi'
      using ch1 desc_self [of "2*i + 1"] by (intro eff_cong) (auto simp: agree_val_def agree_lazy_def)
    have e2: "eff ops t' (2*i + 2) lo' hi' = eff ops t (2*i + 2) lo' hi'" for lo' hi'
      using ch2 desc_self [of "2*i + 2"] by (intro eff_cong) (auto simp: agree_val_def agree_lazy_def)
    show ?thesis
      by (subst good.simps, subst (2) good.simps) (simp add: g1 g2 e1 e2 v)
  next
    case False
    then show ?thesis by (subst good.simps, subst (2) good.simps) simp
  qed
qed

text \<open>Consequences of a frame for the two subtrees of a node and for the node itself.\<close>

lemma frame_sibling:
  assumes "0 \<le> i" "frame (desc c) t t'" "c = 2*i + 1 \<and> s = 2*i + 2 \<or> c = 2*i + 2 \<and> s = 2*i + 1"
  shows "agree_val (desc s) t t'" "agree_lazy (desc s) t t'"
proof -
  have "j \<in> {j. 0 \<le> j} - desc c" if "j \<in> desc s" for j
  proof -
    have "0 \<le> j" using desc_nonneg [of s j] assms(1,3) that by auto
    moreover have "j \<notin> desc c" using desc_disjoint [of i j] assms(1,3) that by auto
    ultimately show ?thesis by simp
  qed
  then show "agree_val (desc s) t t'" "agree_lazy (desc s) t t'"
    using assms(2) by (auto simp: frame_def agree_val_def agree_lazy_def)
qed

lemma frame_parent:
  assumes "0 \<le> i" "frame (desc c) t t'" "c = 2*i + 1 \<or> c = 2*i + 2"
  shows "val t' i = val t i" "dl t' i = dl t i" "pd t' i = pd t i"
proof -
  have "i \<in> {j. 0 \<le> j} - desc c" using desc_child_neq [of i c i] assms by auto
  then show "val t' i = val t i" "dl t' i = dl t i" "pd t' i = pd t i"
    using assms(2) by (auto simp: frame_def agree_val_def agree_lazy_def)
qed

lemma frame_up:
  assumes "frame (desc c) t t'" "c = 2*i + 1 \<or> c = 2*i + 2"
  shows "frame (desc i) t t'"
  using assms desc_child [of c i] by (auto simp: frame_def agree_val_def agree_lazy_def)

lemma frame_refl [simp]: "frame X t t"
  by (simp add: frame_def agree_val_def agree_lazy_def)

lemma frame_trans: "frame X t t' \<Longrightarrow> frame X t' t'' \<Longrightarrow> frame X t t''"
  by (simp add: frame_def agree_val_def agree_lazy_def)

lemma holds_leaf: "\<not> pd t i \<Longrightarrow> holds ops t i lo lo A \<longleftrightarrow> val t i = A lo"
  by (simp add: holds_def lvals_clean base_def)

lemma holds_node:
  assumes "lo < hi" "\<not> pd t i"
  shows "holds ops t i lo hi A \<longleftrightarrow>
     holds ops t (2*i + 1) lo ((lo + hi) div 2) A \<and> holds ops t (2*i + 2) ((lo + hi) div 2 + 1) hi A"
proof -
  let ?m = "(lo + hi) div 2"
  have m: "lo \<le> ?m" "?m \<le> hi" "?m + 1 \<le> hi" using assms(1) by auto
  have sp: "[lo..hi] = [lo..?m] @ [?m + 1..hi]" using m by (intro upto_split2) auto
  have len: "length (lvals ops t (2*i + 1) lo ?m) = length (map A [lo..?m])"
    using m by (simp add: length_lvals)
  show ?thesis
    unfolding holds_def lvals_clean [OF assms(2)] base_def sp
    using assms(1) len by (simp add: append_eq_append_conv)
qed

subsection \<open>The contracts of the header comment\<close>

lemma algebra_compose: "algebra_ok ops \<Longrightarrow> compose_ok ops"
  by (simp add: algebra_ok_def compose_ok_def)

lemma algebra_assoc:
  "algebra_ok ops \<Longrightarrow>
   join_values ops a (join_values ops b c) = join_values ops (join_values ops a b) c"
  unfolding algebra_ok_def by blast

lemma algebra_dist:
  "algebra_ok ops \<Longrightarrow> 1 \<le> m \<Longrightarrow> 1 \<le> k \<Longrightarrow>
   join_value_with_delta ops (join_values ops a b) d (m + k)
   = join_values ops (join_value_with_delta ops a d m) (join_value_with_delta ops b d k)"
  unfolding algebra_ok_def by blast

lemma algebra_seq:
  "algebra_ok ops \<Longrightarrow> 1 \<le> m \<Longrightarrow>
   join_value_with_delta ops (join_value_with_delta ops v d1 m) d2 m
   = join_value_with_delta ops v (join_deltas ops d1 d2) m"
  unfolding algebra_ok_def by blast

lemma join_list_append:
  assumes "\<And>a b c. f a (f b c) = f (f a b) c" "ys \<noteq> []"
  shows "xs \<noteq> [] \<Longrightarrow> join_list f (xs @ ys) = f (join_list f xs) (join_list f ys)"
proof (induction xs rule: induct_list012)
  case 1
  then show ?case by simp
next
  case (2 x)
  obtain y ys' where "ys = y # ys'" using assms(2) by (cases ys) auto
  then show ?case by simp
next
  case (3 x y zs)
  then show ?case by (simp add: assms(1))
qed

lemma join_list_delta:
  assumes "algebra_ok ops"
  shows "xs \<noteq> [] \<Longrightarrow>
     join_value_with_delta ops (join_list (join_values ops) xs) d (int (length xs))
     = join_list (join_values ops) (map (\<lambda>v. join_value_with_delta ops v d 1) xs)"
proof (induction xs rule: induct_list012)
  case 1
  then show ?case by simp
next
  case (2 x)
  show ?case by simp
next
  case (3 x y zs)
  have d: "join_value_with_delta ops (join_values ops a b) d (1 + int (length (y # zs)))
      = join_values ops (join_value_with_delta ops a d 1)
          (join_value_with_delta ops b d (int (length (y # zs))))" for a b
    by (rule algebra_dist [OF assms]) simp_all
  have "join_value_with_delta ops (join_list (join_values ops) (x # y # zs)) d
          (int (length (x # y # zs)))
      = join_value_with_delta ops (join_values ops x (join_list (join_values ops) (y # zs))) d
          (1 + int (length (y # zs)))" by simp
  also have "\<dots> = join_values ops (join_value_with_delta ops x d 1)
      (join_value_with_delta ops (join_list (join_values ops) (y # zs)) d (int (length (y # zs))))"
    by (rule d)
  also have "\<dots> = join_values ops (join_value_with_delta ops x d 1)
      (join_list (join_values ops) (map (\<lambda>v. join_value_with_delta ops v d 1) (y # zs)))"
    using 3 by simp
  finally show ?case by simp
qed

subsection \<open>The effect of \<^verbatim>\<open>update_delta\<close>\<close>

lemma fits_here: "fits N i lo hi \<Longrightarrow> 0 \<le> i \<and> i < N"
  by (subst (asm) fits.simps) simp

lemma fits_children:
  "fits N i lo hi \<Longrightarrow> lo < hi \<Longrightarrow>
   fits N (2*i + 1) lo ((lo + hi) div 2) \<and> fits N (2*i + 2) ((lo + hi) div 2 + 1) hi"
  by (subst (asm) fits.simps) simp

lemma fits_bound: "fits N i lo hi \<Longrightarrow> lo < hi \<Longrightarrow> 2*i + 2 < N"
  using fits_children [of N i lo hi] fits_here [of N "2*i + 2"] by blast

lemma update_delta_fits:
  "sized N t \<Longrightarrow> fits N i lo hi \<Longrightarrow> lo \<le> hi \<Longrightarrow>
   update_delta ops i d lo hi t = Inr (push ops i d lo hi t)"
  using fits_here [of N i lo hi] fits_bound [of N i lo hi]
  by (intro update_delta_push [of N]) auto

lemma push_idle: "\<not> pd t i \<Longrightarrow> push ops i d lo hi t = t"
  by (simp add: push_def)

lemma push_at:
  assumes "sized N t" "fits N i lo hi" "lo \<le> hi"
  shows "\<not> pd (push ops i d lo hi t) i"
    and "val (push ops i d lo hi t) i =
         (if pd t i then join_value_with_delta ops (val t i) d (hi - lo + 1) else val t i)"
  using assms fits_here [of N i lo hi] fits_bound [of N i lo hi]
  by (auto simp: pd_push [of N] val_push [of N])

lemma push_child:
  assumes "sized N t" "fits N i lo hi" "lo < hi" "pd t i" "c = 2*i + 1 \<or> c = 2*i + 2"
  shows "pd (push ops i d lo hi t) c"
    and "val (push ops i d lo hi t) c = val t c"
    and "dl (push ops i d lo hi t) c = (if pd t c then join_deltas ops (dl t c) d else d)"
  using assms fits_here [of N i lo hi] fits_bound [of N i lo hi]
  by (auto simp: pd_push [of N] val_push [of N] dl_push [of N])

lemma push_other:
  assumes "sized N t" "fits N i lo hi" "lo \<le> hi" "0 \<le> j" "j \<noteq> i" "j \<noteq> 2*i + 1" "j \<noteq> 2*i + 2"
  shows "pd (push ops i d lo hi t) j = pd t j"
    and "val (push ops i d lo hi t) j = val t j"
    and "dl (push ops i d lo hi t) j = dl t j"
  using assms fits_here [of N i lo hi] fits_bound [of N i lo hi]
  by (auto simp: pd_push [of N] val_push [of N] dl_push [of N])

lemma push_val_other:
  assumes "sized N t" "fits N i lo hi" "lo \<le> hi" "0 \<le> j" "j \<noteq> i"
  shows "val (push ops i d lo hi t) j = val t j"
  using assms fits_here [of N i lo hi] by (auto simp: val_push [of N])

lemma frame_push:
  assumes "sized N t" "fits N i lo hi" "lo \<le> hi"
  shows "frame (desc i) t (push ops i d lo hi t)"
proof -
  have "j \<noteq> i \<and> j \<noteq> 2*i + 1 \<and> j \<noteq> 2*i + 2" if "j \<notin> desc i" for j
    using that desc_self [of i] desc_left [of "2*i + 1" i] desc_right [of "2*i + 2" i]
      desc_self [of "2*i + 1"] desc_self [of "2*i + 2"] by auto
  then show ?thesis
    using push_other [OF assms] by (auto simp: frame_def agree_val_def agree_lazy_def)
qed

lemma push_below:
  assumes "sized N t" "fits N i lo hi" "lo \<le> hi" "c = 2*i + 1 \<or> c = 2*i + 2"
  shows "agree_val (desc c) t (push ops i d lo hi t)"
    and "agree_lazy (desc c - {c}) t (push ops i d lo hi t)"
proof -
  have i0: "0 \<le> i" using fits_here [OF assms(2)] by simp
  have nn: "0 \<le> j \<and> j \<noteq> i" if "j \<in> desc c" for j
    using that desc_ge [of c j] i0 assms(4) by auto
  have ns: "j \<noteq> 2*i + 1 \<and> j \<noteq> 2*i + 2" if "j \<in> desc c" "j \<noteq> c" for j
    using that desc_disjoint [OF i0, of j] desc_self [of "2*i + 1"] desc_self [of "2*i + 2"] assms(4)
    by auto
  show "agree_val (desc c) t (push ops i d lo hi t)"
    using push_val_other [OF assms(1-3)] nn by (auto simp: agree_val_def)
  show "agree_lazy (desc c - {c}) t (push ops i d lo hi t)"
    using push_other [OF assms(1-3)] nn ns by (auto simp: agree_lazy_def)
qed

lemma lvals_push_child:
  assumes "compose_ok ops" "sized N t" "fits N i lo hi" "lo < hi" "pd t i"
    "c = 2*i + 1 \<or> c = 2*i + 2"
  shows "lvals ops (push ops i d lo hi t) c lo' hi'
       = map (\<lambda>v. join_value_with_delta ops v d 1) (lvals ops t c lo' hi')"
proof -
  let ?t1 = "push ops i d lo hi t"
  have le: "lo \<le> hi" using assms(4) by simp
  have c0: "0 \<le> c" using fits_here [OF assms(3)] assms(6) by auto
  have b: "base ops ?t1 c lo' hi' = base ops t c lo' hi'"
    using push_below [OF assms(2,3) le assms(6)] c0 by (intro base_cong) auto
  have o: "own ops ?t1 c v = join_value_with_delta ops (own ops t c v) d 1" for v
    using push_child [OF assms(2-6)] assms(1) by (simp add: own_def compose_ok_def)
  show ?thesis by (simp add: lvals_base b o)
qed

lemma lvals_push:
  assumes "compose_ok ops" "sized N t" "fits N i lo hi" "lo \<le> hi" "pd t i"
  shows "lvals ops (push ops i d lo hi t) i lo hi
       = map (\<lambda>v. join_value_with_delta ops v d 1) (base ops t i lo hi)"
proof (cases "lo < hi")
  case True
  show ?thesis
    unfolding lvals_clean [OF push_at(1) [OF assms(2-4)]]
    using True lvals_push_child [OF assms(1-3) True assms(5)]
    by (simp add: base_def)
next
  case False
  then have "hi - lo + 1 = 1" using assms(4) by simp
  then show ?thesis
    unfolding lvals_clean [OF push_at(1) [OF assms(2-4)]]
    using False push_at(2) [OF assms(2-4)] assms(5) by (simp add: base_def)
qed

lemma lvals_resolve:
  assumes "compose_ok ops" "sized N t" "fits N i lo hi" "lo \<le> hi"
  shows "lvals ops (push ops i (dl t i) lo hi t) i lo hi = lvals ops t i lo hi"
proof (cases "pd t i")
  case True
  show ?thesis using lvals_push [OF assms True] by (simp add: lvals_base own_pending [OF True])
next
  case False
  then show ?thesis by (simp add: push_idle)
qed

lemma holds_resolve:
  "compose_ok ops \<Longrightarrow> sized N t \<Longrightarrow> fits N i lo hi \<Longrightarrow> lo \<le> hi \<Longrightarrow>
   holds ops (push ops i (dl t i) lo hi t) i lo hi A = holds ops t i lo hi A"
  by (simp add: holds_def lvals_resolve)

lemma eff_push_child:
  assumes "algebra_ok ops" "sized N t" "fits N i lo hi" "lo < hi" "pd t i"
    "c = 2*i + 1 \<or> c = 2*i + 2" "lo' \<le> hi'"
  shows "eff ops (push ops i d lo hi t) c lo' hi'
       = join_value_with_delta ops (eff ops t c lo' hi') d (hi' - lo' + 1)"
proof -
  have m: "1 \<le> hi' - lo' + 1" using assms(7) by simp
  have c3: "join_value_with_delta ops (join_value_with_delta ops v d1 (hi' - lo' + 1)) d (hi' - lo' + 1)
      = join_value_with_delta ops v (join_deltas ops d1 d) (hi' - lo' + 1)" for v d1
    by (rule algebra_seq [OF assms(1) m])
  show ?thesis
    using push_child [OF assms(2-6)] by (simp add: eff_def c3)
qed

lemma good_push:
  assumes "algebra_ok ops" "sized N t" "fits N i lo hi" "lo \<le> hi" "pd t i" "good ops t i lo hi"
  shows "good ops (push ops i d lo hi t) i lo hi"
proof (cases "lo < hi")
  case False
  then show ?thesis by (subst good.simps) simp
next
  case True
  let ?t1 = "push ops i d lo hi t"
  let ?m = "(lo + hi) div 2"
  have i0: "0 \<le> i" using fits_here [OF assms(3)] by simp
  have old: "good ops t (2*i + 1) lo ?m" "good ops t (2*i + 2) (?m + 1) hi"
    "val t i = join_values ops (eff ops t (2*i + 1) lo ?m) (eff ops t (2*i + 2) (?m + 1) hi)"
    using assms(6) True by (subst (asm) good.simps, simp)+
  have g1: "good ops ?t1 (2*i + 1) lo ?m"
    using push_below [OF assms(2-4), of "2*i + 1"] i0 old(1)
    by (subst good_cong [of "2*i + 1" t]) auto
  have g2: "good ops ?t1 (2*i + 2) (?m + 1) hi"
    using push_below [OF assms(2-4), of "2*i + 2"] i0 old(2)
    by (subst good_cong [of "2*i + 2" t]) auto
  have m: "lo \<le> ?m" "?m + 1 \<le> hi" using True by auto
  have e1: "eff ops ?t1 (2*i + 1) lo ?m
      = join_value_with_delta ops (eff ops t (2*i + 1) lo ?m) d (?m - lo + 1)"
    using m by (intro eff_push_child [OF assms(1-3) True assms(5)]) auto
  have e2: "eff ops ?t1 (2*i + 2) (?m + 1) hi
      = join_value_with_delta ops (eff ops t (2*i + 2) (?m + 1) hi) d (hi - (?m + 1) + 1)"
    using m by (intro eff_push_child [OF assms(1-3) True assms(5)]) auto
  have sp: "hi - lo + 1 = (?m - lo + 1) + (hi - (?m + 1) + 1)" by simp
  have dist: "join_value_with_delta ops (join_values ops a b) d ((?m - lo + 1) + (hi - (?m + 1) + 1))
      = join_values ops (join_value_with_delta ops a d (?m - lo + 1))
          (join_value_with_delta ops b d (hi - (?m + 1) + 1))" for a b
    using m by (intro algebra_dist [OF assms(1)]) auto
  have v: "val ?t1 i = join_values ops (eff ops ?t1 (2*i + 1) lo ?m) (eff ops ?t1 (2*i + 2) (?m + 1) hi)"
    unfolding e1 e2 push_at(2) [OF assms(2-4)] using assms(5) old(3) dist
    by (simp only: sp if_True)
  show ?thesis using True g1 g2 v by (subst good.simps) simp
qed

lemma good_resolve:
  assumes "algebra_ok ops" "sized N t" "fits N i lo hi" "lo \<le> hi" "good ops t i lo hi"
  shows "good ops (push ops i (dl t i) lo hi t) i lo hi"
  using good_push [OF assms(1-4) _ assms(5)] by (cases "pd t i") (simp_all add: push_idle assms(5))

lemma val_resolve:
  assumes "sized N t" "fits N i lo hi" "lo \<le> hi"
  shows "val (push ops i (dl t i) lo hi t) i = eff ops t i lo hi"
  using push_at(2) [OF assms] by (simp add: eff_def)

lemma eff_join:
  assumes "algebra_ok ops"
  shows "lo \<le> hi \<Longrightarrow> good ops t i lo hi \<Longrightarrow>
     eff ops t i lo hi = join_list (join_values ops) (lvals ops t i lo hi)"
proof (induction i lo hi rule: span_induct)
  case (node i lo hi)
  show ?case
  proof (cases "lo < hi")
    case False
    then have "hi - lo + 1 = 1" using node.prems(1) by simp
    then show ?thesis using False by (simp add: eff_def lvals_base base_def own_def)
  next
    case True
    let ?m = "(lo + hi) div 2"
    let ?L = "lvals ops t (2*i + 1) lo ?m" and ?R = "lvals ops t (2*i + 2) (?m + 1) hi"
    have m: "lo \<le> ?m" "?m + 1 \<le> hi" using True by auto
    have old: "good ops t (2*i + 1) lo ?m" "good ops t (2*i + 2) (?m + 1) hi"
      "val t i = join_values ops (eff ops t (2*i + 1) lo ?m) (eff ops t (2*i + 2) (?m + 1) hi)"
      using node.prems(2) True by (subst (asm) good.simps, simp)+
    have "0 < length ?L" "0 < length ?R"
      using m by (simp_all add: length_lvals)
    then have ne: "?L \<noteq> []" "?R \<noteq> []" by auto
    have assoc: "\<And>a b c. join_values ops a (join_values ops b c)
        = join_values ops (join_values ops a b) c"
      by (rule algebra_assoc [OF assms])
    have b: "base ops t i lo hi = ?L @ ?R" using True by (simp add: base_def)
    have v: "val t i = join_list (join_values ops) (base ops t i lo hi)"
      unfolding b old(3) using node.IH(1) [OF True m(1) old(1)] node.IH(2) [OF True m(2) old(2)]
      by (simp add: join_list_append [OF assoc ne(2) ne(1)])
    have len: "int (length (base ops t i lo hi)) = hi - lo + 1"
      unfolding b using m by (simp add: length_lvals)
    have bne: "base ops t i lo hi \<noteq> []" using ne by (simp add: b)
    show ?thesis
    proof (cases "pd t i")
      case False
      then show ?thesis using v by (simp add: eff_def lvals_clean)
    next
      case True
      have "eff ops t i lo hi = join_value_with_delta ops
          (join_list (join_values ops) (base ops t i lo hi)) (dl t i) (int (length (base ops t i lo hi)))"
        using True v len by (simp add: eff_def)
      also have "\<dots> = join_list (join_values ops)
          (map (\<lambda>v. join_value_with_delta ops v (dl t i) 1) (base ops t i lo hi))"
        by (rule join_list_delta [OF assms bne])
      also have "\<dots> = join_list (join_values ops) (lvals ops t i lo hi)"
        using True by (simp add: lvals_base own_pending)
      finally show ?thesis .
    qed
  qed
qed

subsection \<open>Single writes\<close>

lemma twice: "(i::int) * 2 = 2 * i"
  by simp

lemma cdiv_nonneg: "0 \<le> a \<Longrightarrow> cdiv a 2 = a div 2"
  by (simp add: cdiv_def sgn_if)

lemma setval_simps [simp]:
  "sized N (setval t i v) = sized N t" "len (setval t i v) = len t"
  "delta (setval t i v) = delta t" "pending (setval t i v) = pending t"
  "pd (setval t i v) j = pd t j" "dl (setval t i v) j = dl t j"
  by (simp_all add: setval_def sized_def pd_def dl_def)

lemma val_setval:
  "sized N t \<Longrightarrow> 0 \<le> i \<Longrightarrow> i < N \<Longrightarrow> 0 \<le> j \<Longrightarrow>
   val (setval t i v) j = (if j = i then v else val t j)"
  by (auto simp: setval_def val_def sized_def nth_list_update nat_inj)

lemma setpd_simps [simp]:
  "sized N (setpd t i) = sized N t" "len (setpd t i) = len t"
  "delta (setpd t i) = delta t" "value (setpd t i) = value t"
  "val (setpd t i) j = val t j" "dl (setpd t i) j = dl t j"
  by (simp_all add: setpd_def sized_def val_def dl_def)

lemma pd_setpd:
  "sized N t \<Longrightarrow> 0 \<le> i \<Longrightarrow> i < N \<Longrightarrow> 0 \<le> j \<Longrightarrow>
   pd (setpd t i) j = (j = i \<or> pd t j)"
  by (cases "j = i") (auto simp: setpd_def pd_def sized_def nth_list_update nat_inj)

lemma frame_setval:
  assumes "sized N t" "0 \<le> i" "i < N"
  shows "frame (desc i) t (setval t i v)"
  using desc_self [of i] val_setval [OF assms]
  by (auto simp: frame_def agree_val_def agree_lazy_def)

lemma frame_setpd:
  assumes "sized N t" "0 \<le> i" "i < N"
  shows "frame (desc i) t (setpd t i)"
  using desc_self [of i] pd_setpd [OF assms]
  by (auto simp: frame_def agree_val_def agree_lazy_def)

lemma setval_below:
  assumes "sized N t" "0 \<le> i" "i < N" "c = 2*i + 1 \<or> c = 2*i + 2"
  shows "agree_val (desc c) t (setval t i v)" "agree_lazy (desc c) t (setval t i v)"
proof -
  have "0 \<le> j \<and> j \<noteq> i" if "j \<in> desc c" for j
    using that desc_ge [of c j] assms(2,4) by auto
  then show "agree_val (desc c) t (setval t i v)"
    by (simp add: agree_val_def val_setval [OF assms(1-3)])
  show "agree_lazy (desc c) t (setval t i v)" by (simp add: agree_lazy_def)
qed

lemma setpd_below:
  assumes "sized N t" "0 \<le> i" "i < N"
  shows "agree_val (desc i) t (setpd t i)" "agree_lazy (desc i - {i}) t (setpd t i)"
proof -
  have "0 \<le> j" if "j \<in> desc i" for j
    using that desc_ge [of i j] assms(2) by auto
  then show "agree_lazy (desc i - {i}) t (setpd t i)"
    by (simp add: agree_lazy_def pd_setpd [OF assms])
  show "agree_val (desc i) t (setpd t i)" by (simp add: agree_val_def)
qed

subsection \<open>Nodes and their children\<close>

lemma good_node:
  "lo < hi \<Longrightarrow> good ops t i lo hi \<longleftrightarrow>
     good ops t (2*i + 1) lo ((lo + hi) div 2) \<and>
     good ops t (2*i + 2) ((lo + hi) div 2 + 1) hi \<and>
     val t i = join_values ops (eff ops t (2*i + 1) lo ((lo + hi) div 2))
                               (eff ops t (2*i + 2) ((lo + hi) div 2 + 1) hi)"
  by (subst good.simps) simp

lemma good_leaf: "\<not> lo < hi \<Longrightarrow> good ops t i lo hi"
  by (subst good.simps) simp

lemma holds_cong:
  assumes "\<And>j. lo \<le> j \<Longrightarrow> j \<le> hi \<Longrightarrow> A j = B j"
  shows "holds ops t i lo hi A = holds ops t i lo hi B"
proof -
  have eq: "map A [lo..hi] = map B [lo..hi]" using assms by (intro map_cong) auto
  show ?thesis unfolding holds_def eq by (rule refl)
qed

lemma eff_holds:
  "algebra_ok ops \<Longrightarrow> lo \<le> hi \<Longrightarrow> good ops t i lo hi \<Longrightarrow> holds ops t i lo hi A \<Longrightarrow>
   eff ops t i lo hi = join_list (join_values ops) (map A [lo..hi])"
  using eff_join [of ops lo hi t i] by (simp add: holds_def)

lemma eff_clean: "\<not> pd t i \<Longrightarrow> eff ops t i lo hi = val t i"
  by (simp add: eff_def)

lemma sibling_keep:
  assumes "0 \<le> i" "frame (desc c) t t'"
    "c = 2*i + 1 \<and> s = 2*i + 2 \<or> c = 2*i + 2 \<and> s = 2*i + 1"
  shows "lvals ops t' s lo' hi' = lvals ops t s lo' hi'"
    and "holds ops t' s lo' hi' A = holds ops t s lo' hi' A"
    and "good ops t' s lo' hi' = good ops t s lo' hi'"
    and "pd t' s = pd t s"
    and "val t' s = val t s"
    and "eff ops t' s lo' hi' = eff ops t s lo' hi'"
proof -
  note ag = frame_sibling [OF assms]
  have s0: "0 \<le> s" using assms(1,3) by auto
  show l: "lvals ops t' s lo' hi' = lvals ops t s lo' hi'"
    using ag s0 by (intro lvals_cong) auto
  show "holds ops t' s lo' hi' A = holds ops t s lo' hi' A" by (simp add: holds_def l)
  show "good ops t' s lo' hi' = good ops t s lo' hi'"
    using ag s0 by (intro good_cong) (auto simp: agree_lazy_def)
  show p: "pd t' s = pd t s" and v: "val t' s = val t s"
    using ag desc_self [of s] by (auto simp: agree_lazy_def agree_val_def)
  have "dl t' s = dl t s" using ag desc_self [of s] by (auto simp: agree_lazy_def)
  with p v show "eff ops t' s lo' hi' = eff ops t s lo' hi'" by (simp add: eff_def)
qed

text \<open>The last statement of \<^verbatim>\<open>build\<close> and \<^verbatim>\<open>update\<close>: the node's aggregate from its children.\<close>

lemma recompute_run:
  assumes "sized N t" "fits N i lo hi" "lo < hi"
  shows "bindE (vector_get (value t) (2*i + 1)) (\<lambda>a.
         bindE (vector_get (value t) (2*i + 2)) (\<lambda>b.
         bindE (vector_set (value t) i (join_values ops a b)) (\<lambda>vs. Inr (t\<lparr>value := vs\<rparr>))))
       = Inr (setval t i (join_values ops (val t (2*i + 1)) (val t (2*i + 2))))"
  using assms(1) fits_here [OF assms(2)] fits_bound [OF assms(2,3)]
  by (simp add: vector_get_in vector_set_in sized_def setval_def val_def)

lemma recompute_holds:
  assumes "sized N t" "fits N i lo hi" "lo < hi" "\<not> pd t i"
  shows "holds ops (setval t i v) i lo hi A \<longleftrightarrow>
     holds ops t (2*i + 1) lo ((lo + hi) div 2) A \<and> holds ops t (2*i + 2) ((lo + hi) div 2 + 1) hi A"
proof -
  have b: "0 \<le> i" "i < N" using fits_here [OF assms(2)] by auto
  have l: "lvals ops (setval t i v) (2*i + 1) lo' hi' = lvals ops t (2*i + 1) lo' hi'" for lo' hi'
    using setval_below [OF assms(1) b, of "2*i + 1"] b by (intro lvals_cong) auto
  have r: "lvals ops (setval t i v) (2*i + 2) lo' hi' = lvals ops t (2*i + 2) lo' hi'" for lo' hi'
    using setval_below [OF assms(1) b, of "2*i + 2"] b by (intro lvals_cong) auto
  have "\<not> pd (setval t i v) i" using assms(4) by simp
  from holds_node [OF assms(3) this] show ?thesis by (simp add: holds_def l r)
qed

lemma recompute_good:
  assumes "sized N t" "fits N i lo hi" "lo < hi"
    "good ops t (2*i + 1) lo ((lo + hi) div 2)" "good ops t (2*i + 2) ((lo + hi) div 2 + 1) hi"
    "\<not> pd t (2*i + 1)" "\<not> pd t (2*i + 2)"
  shows "good ops (setval t i (join_values ops (val t (2*i + 1)) (val t (2*i + 2)))) i lo hi"
proof -
  let ?t' = "setval t i (join_values ops (val t (2*i + 1)) (val t (2*i + 2)))"
  have b: "0 \<le> i" "i < N" using fits_here [OF assms(2)] by auto
  have g1: "good ops ?t' (2*i + 1) lo ((lo + hi) div 2)"
    using setval_below [OF assms(1) b, of "2*i + 1"] b assms(4)
    by (subst good_cong [of "2*i + 1" t]) (auto simp: agree_lazy_def)
  have g2: "good ops ?t' (2*i + 2) ((lo + hi) div 2 + 1) hi"
    using setval_below [OF assms(1) b, of "2*i + 2"] b assms(5)
    by (subst good_cong [of "2*i + 2" t]) (auto simp: agree_lazy_def)
  have v: "val ?t' i = join_values ops (val t (2*i + 1)) (val t (2*i + 2))"
    "val ?t' (2*i + 1) = val t (2*i + 1)" "val ?t' (2*i + 2) = val t (2*i + 2)"
    using b by (simp_all add: val_setval [OF assms(1) b])
  show ?thesis
    using g1 g2 v assms(6,7) by (simp add: good_node [OF assms(3)] eff_clean)
qed

subsection \<open>Construction\<close>

lemma build_iter_ok:
  "fits N i lo hi \<Longrightarrow> 0 \<le> lo \<Longrightarrow> lo \<le> hi \<Longrightarrow> hi < int (length arr) \<Longrightarrow> sized N t \<Longrightarrow>
   \<forall>j. 0 \<le> j \<and> j < N \<longrightarrow> \<not> pd t j \<Longrightarrow>
   \<exists>t'. build_iter ops i lo hi arr t = Some (Inr t') \<and> sized N t' \<and> len t' = len t \<and>
        delta t' = delta t \<and> pending t' = pending t \<and> frame (desc i) t t' \<and>
        holds ops t' i lo hi (\<lambda>j. arr ! nat j) \<and> good ops t' i lo hi"
proof (induction i lo hi arbitrary: t rule: span_induct)
  case (node i lo hi)
  have b: "0 \<le> i" "i < N" using fits_here [OF node.prems(1)] by auto
  show ?case
  proof (cases "lo < hi")
    case False
    then have eq: "hi = lo" using node.prems(3) by simp
    let ?t' = "setval t i (arr ! nat lo)"
    have run: "build_iter ops i lo hi arr t = Some (Inr ?t')"
      using node.prems b eq
      by (subst build_iter.simps) (simp add: vector_get_in vector_set_in sized_def setval_def)
    have "\<not> pd ?t' i" using node.prems(6) b by simp
    then have "holds ops ?t' i lo hi (\<lambda>j. arr ! nat j)"
      using b by (simp add: eq holds_leaf val_setval [OF node.prems(5)])
    then show ?thesis
      using run node.prems(5) frame_setval [OF node.prems(5) b] good_leaf [OF False]
      by simp
  next
    case True
    let ?m = "(lo + hi) div 2"
    have m: "lo \<le> ?m" "?m < hi" "?m + 1 \<le> hi" "0 \<le> ?m + 1" "?m < int (length arr)"
      "cdiv (lo + hi) 2 = ?m"
      using True node.prems(2,4) by (auto simp: cdiv_nonneg)
    note ch = fits_children [OF node.prems(1) True]
    obtain t1 where t1: "build_iter ops (2*i + 1) lo ?m arr t = Some (Inr t1)" "sized N t1"
      "len t1 = len t" "delta t1 = delta t" "pending t1 = pending t" "frame (desc (2*i + 1)) t t1"
      "holds ops t1 (2*i + 1) lo ?m (\<lambda>j. arr ! nat j)" "good ops t1 (2*i + 1) lo ?m"
      using node.IH(1) [OF True conjunct1 [OF ch] node.prems(2) m(1,5) node.prems(5,6)] by blast
    have np1: "\<forall>j. 0 \<le> j \<and> j < N \<longrightarrow> \<not> pd t1 j"
      using node.prems(6) t1(5) by (simp add: pd_def)
    obtain t2 where t2: "build_iter ops (2*i + 2) (?m + 1) hi arr t1 = Some (Inr t2)" "sized N t2"
      "len t2 = len t1" "delta t2 = delta t1" "pending t2 = pending t1" "frame (desc (2*i + 2)) t1 t2"
      "holds ops t2 (2*i + 2) (?m + 1) hi (\<lambda>j. arr ! nat j)" "good ops t2 (2*i + 2) (?m + 1) hi"
      using node.IH(2) [OF True conjunct2 [OF ch] m(4,3) node.prems(4) t1(2) np1] by blast
    have np2: "\<forall>j. 0 \<le> j \<and> j < N \<longrightarrow> \<not> pd t2 j"
      using np1 t2(5) by (simp add: pd_def)
    have cb: "2*i + 2 < N" by (rule fits_bound [OF node.prems(1) True])
    let ?t3 = "setval t2 i (join_values ops (val t2 (2*i + 1)) (val t2 (2*i + 2)))"
    have run: "build_iter ops i lo hi arr t = Some (Inr ?t3)"
      using True t1(1) t2(1) recompute_run [OF t2(2) node.prems(1) True]
      by (subst build_iter.simps) (simp add: twice m(6))
    have keep: "holds ops t2 (2*i + 1) lo ?m (\<lambda>j. arr ! nat j)" "good ops t2 (2*i + 1) lo ?m"
      using sibling_keep(2,3) [OF b(1) t2(6), of "2*i + 1"] t1(7,8) by auto
    have h: "holds ops ?t3 i lo hi (\<lambda>j. arr ! nat j)"
      using keep(1) t2(7) np2 b by (simp add: recompute_holds [OF t2(2) node.prems(1) True])
    have g: "good ops ?t3 i lo hi"
      using np2 b cb by (intro recompute_good [OF t2(2) node.prems(1) True keep(2) t2(8)]) auto
    have f: "frame (desc i) t ?t3"
      using frame_up [OF t1(6), of i] frame_up [OF t2(6), of i] frame_setval [OF t2(2) b]
      by (blast intro: frame_trans)
    show ?thesis using run t1 t2 h g f by simp
  qed
qed

lemma build_fill_iter:
  "0 \<le> lo \<Longrightarrow> lo \<le> hi \<Longrightarrow> hi < int n \<Longrightarrow>
   build_fill ops i lo hi v t = build_iter ops i lo hi (replicate n v) t"
proof (induction i lo hi arbitrary: t rule: span_induct)
  case (node i lo hi)
  show ?case
  proof (cases "lo < hi")
    case False
    then show ?thesis
      using node.prems
      by (subst build_fill.simps, subst build_iter.simps) (simp add: vector_get_in)
  next
    case True
    let ?m = "(lo + hi) div 2"
    have m: "lo \<le> ?m" "?m < int n" "?m + 1 \<le> hi" "0 \<le> ?m + 1" "cdiv (lo + hi) 2 = ?m"
      using True node.prems by (auto simp: cdiv_nonneg)
    have l: "build_fill ops (2*i + 1) lo ?m v t' = build_iter ops (2*i + 1) lo ?m (replicate n v) t'" for t'
      by (rule node.IH(1) [OF True node.prems(1) m(1,2)])
    have r: "build_fill ops (2*i + 2) (?m + 1) hi v t' = build_iter ops (2*i + 2) (?m + 1) hi (replicate n v) t'" for t'
      by (rule node.IH(2) [OF True m(4,3) node.prems(3)])
    show ?thesis
      using True by (subst build_fill.simps, subst build_iter.simps) (simp add: twice m(5) l r)
  qed
qed

subsection \<open>The recursive query and update\<close>

lemma resolve_run:
  assumes "sized N t" "fits N i lo hi" "lo \<le> hi" "t1 = push ops i (dl t i) lo hi t"
  shows "vector_get (delta t) i = Inr (dl t i)"
    and "update_delta ops i (dl t i) lo hi t = Inr t1"
    and "sized N t1" "len t1 = len t" "frame (desc i) t t1" "\<not> pd t1 i"
    and "vector_get (value t1) i = Inr (val t1 i)"
proof -
  have b: "0 \<le> i" "i < N" using fits_here [OF assms(2)] by auto
  show "vector_get (delta t) i = Inr (dl t i)"
    using assms(1) b by (simp add: vector_get_in sized_def dl_def)
  show "update_delta ops i (dl t i) lo hi t = Inr t1"
    unfolding assms(4) by (rule update_delta_fits [OF assms(1-3)])
  show s: "sized N t1" using assms(1) by (simp add: assms(4))
  show "len t1 = len t" by (simp add: assms(4))
  show "frame (desc i) t t1" unfolding assms(4) by (rule frame_push [OF assms(1-3)])
  show "\<not> pd t1 i" unfolding assms(4) by (rule push_at(1) [OF assms(1-3)])
  show "vector_get (value t1) i = Inr (val t1 i)"
    using s b by (simp add: vector_get_in sized_def val_def)
qed

lemma resolve_logic:
  assumes "compose_ok ops" "sized N t" "fits N i lo hi" "lo \<le> hi" "holds ops t i lo hi A"
    and "t1 = push ops i (dl t i) lo hi t"
  shows "holds ops t1 i lo hi A"
    and "algebra_ok ops \<Longrightarrow> good ops t i lo hi \<Longrightarrow>
         good ops t1 i lo hi \<and> val t1 i = join_list (join_values ops) (map A [lo..hi])"
proof -
  show "holds ops t1 i lo hi A"
    unfolding assms(6) using assms(5) by (simp add: holds_resolve [OF assms(1-4)])
  show "good ops t1 i lo hi \<and> val t1 i = join_list (join_values ops) (map A [lo..hi])"
    if "algebra_ok ops" "good ops t i lo hi"
    unfolding assms(6)
    using good_resolve [OF that(1) assms(2-4) that(2)] val_resolve [OF assms(2-4)]
      eff_holds [OF that(1) assms(4) that(2) assms(5)]
    by simp
qed

lemma reassemble:
  assumes "0 \<le> i" "lo < hi" "\<not> pd t1 i"
    "frame (desc (2*i + 1)) t1 t2" "frame (desc (2*i + 2)) t2 t3"
    "holds ops t2 (2*i + 1) lo ((lo + hi) div 2) A"
    "holds ops t3 (2*i + 2) ((lo + hi) div 2 + 1) hi A"
  shows "\<not> pd t3 i" "frame (desc i) t1 t3" "holds ops t3 i lo hi A"
proof -
  show p: "\<not> pd t3 i"
    using frame_parent(3) [OF assms(1,4)] frame_parent(3) [OF assms(1,5)] assms(3) by simp
  show "frame (desc i) t1 t3"
    using frame_up [OF assms(4), of i] frame_up [OF assms(5), of i] by (blast intro: frame_trans)
  have "holds ops t3 (2*i + 1) lo ((lo + hi) div 2) A"
    using sibling_keep(2) [OF assms(1,5), of "2*i + 1"] assms(6) by simp
  then show "holds ops t3 i lo hi A"
    using assms(7) by (simp add: holds_node [OF assms(2) p])
qed

lemma reassemble_good:
  assumes "algebra_ok ops" "0 \<le> i" "lo < hi" "\<not> pd t1 i"
    "good ops t1 i lo hi" "holds ops t1 i lo hi A"
    "frame (desc (2*i + 1)) t1 t2" "frame (desc (2*i + 2)) t2 t3"
    "good ops t2 (2*i + 1) lo ((lo + hi) div 2)"
    "holds ops t2 (2*i + 1) lo ((lo + hi) div 2) A"
    "good ops t3 (2*i + 2) ((lo + hi) div 2 + 1) hi"
    "holds ops t3 (2*i + 2) ((lo + hi) div 2 + 1) hi A"
  shows "good ops t3 i lo hi"
proof -
  let ?m = "(lo + hi) div 2"
  have m: "lo \<le> ?m" "?m + 1 \<le> hi" using assms(3) by auto
  have h1: "holds ops t1 (2*i + 1) lo ?m A" "holds ops t1 (2*i + 2) (?m + 1) hi A"
    using assms(6) by (simp_all add: holds_node [OF assms(3,4)])
  have g1: "good ops t1 (2*i + 1) lo ?m" "good ops t1 (2*i + 2) (?m + 1) hi"
    "val t1 i = join_values ops (eff ops t1 (2*i + 1) lo ?m) (eff ops t1 (2*i + 2) (?m + 1) hi)"
    using assms(5) by (simp_all add: good_node [OF assms(3)])
  have l3: "good ops t3 (2*i + 1) lo ?m" "holds ops t3 (2*i + 1) lo ?m A"
    using sibling_keep(2,3) [OF assms(2,8), of "2*i + 1"] assms(9,10) by simp_all
  have e1: "eff ops t3 (2*i + 1) lo ?m = eff ops t1 (2*i + 1) lo ?m"
    by (simp add: eff_holds [OF assms(1) m(1) l3] eff_holds [OF assms(1) m(1) g1(1) h1(1)])
  have e2: "eff ops t3 (2*i + 2) (?m + 1) hi = eff ops t1 (2*i + 2) (?m + 1) hi"
    by (simp add: eff_holds [OF assms(1) m(2) assms(11,12)] eff_holds [OF assms(1) m(2) g1(2) h1(2)])
  have v: "val t3 i = val t1 i"
    using frame_parent(1) [OF assms(2,7)] frame_parent(1) [OF assms(2,8)] by simp
  show ?thesis
    using l3(1) assms(11) g1(3) by (simp add: good_node [OF assms(3)] e1 e2 v)
qed

lemma join_list_split:
  assumes "algebra_ok ops" "a \<le> m" "m < b"
  shows "join_values ops (join_list (join_values ops) (map A [a..m]))
           (join_list (join_values ops) (map A [m + 1..b]))
       = join_list (join_values ops) (map A [a..b])"
proof -
  have sp: "[a..b] = [a..m] @ [m + 1..b]" using assms(2,3) by (intro upto_split2) auto
  have ne: "map A [a..m] \<noteq> []" "map A [m + 1..b] \<noteq> []" using assms(2,3) by auto
  show ?thesis
    unfolding sp map_append
    by (rule join_list_append [OF algebra_assoc [OF assms(1)] ne(2) ne(1), symmetric])
qed

lemma query_rec_ok:
  "fits N i lo hi \<Longrightarrow> 0 \<le> lo \<Longrightarrow> lo \<le> ql \<Longrightarrow> ql \<le> qh \<Longrightarrow> qh \<le> hi \<Longrightarrow> sized N t \<Longrightarrow>
   \<exists>r t'. query_rec ops i lo hi ql qh t = Some (Inr (r, t')) \<and> sized N t' \<and> len t' = len t \<and>
      frame (desc i) t t' \<and> \<not> pd t' i \<and>
      (compose_ok ops \<longrightarrow> holds ops t i lo hi A \<longrightarrow>
         holds ops t' i lo hi A \<and> (ql = qh \<longrightarrow> r = A ql) \<and>
         (algebra_ok ops \<longrightarrow> good ops t i lo hi \<longrightarrow>
            good ops t' i lo hi \<and> r = join_list (join_values ops) (map A [ql..qh])))"
proof (induction i lo hi arbitrary: t ql qh rule: span_induct)
  case (node i lo hi)
  define t1 where "t1 = push ops i (dl t i) lo hi t"
  have le: "lo \<le> hi" using node.prems by linarith
  note rs = resolve_run [OF node.prems(6) node.prems(1) le t1_def]
  note rl = resolve_logic [OF _ node.prems(6) node.prems(1) le _ t1_def]
  have i0: "0 \<le> i" using fits_here [OF node.prems(1)] by simp
  show ?case
  proof (cases "lo = ql \<and> hi = qh")
    case True
    have run: "query_rec ops i lo hi ql qh t = Some (Inr (val t1 i, t1))"
      using True rs(1,2,7) by (subst query_rec.simps) simp
    have logic: "holds ops t1 i lo hi A \<and> (ql = qh \<longrightarrow> val t1 i = A ql) \<and>
        (algebra_ok ops \<longrightarrow> good ops t i lo hi \<longrightarrow>
           good ops t1 i lo hi \<and> val t1 i = join_list (join_values ops) (map A [ql..qh]))"
      if c: "compose_ok ops" and h: "holds ops t i lo hi A"
    proof -
      note h1 = rl(1) [OF c h]
      have one: "val t1 i = A ql" if "ql = qh"
        using that True rs(6) h1 by (simp add: holds_leaf)
      have agg: "good ops t1 i lo hi \<and> val t1 i = join_list (join_values ops) (map A [ql..qh])"
        if "algebra_ok ops" "good ops t i lo hi"
        using rl(2) [OF c h that] True by simp
      show ?thesis using h1 one agg by blast
    qed
    show ?thesis using run rs(3-6) logic by blast
  next
    case False
    then have lt: "lo < hi" using node.prems by linarith
    let ?m = "(lo + hi) div 2"
    have m: "lo \<le> ?m" "?m < hi" "?m + 1 \<le> hi" "0 \<le> ?m + 1" "cdiv (lo + hi) 2 = ?m"
      using lt node.prems(2) by (auto simp: cdiv_nonneg)
    note ch = fits_children [OF node.prems(1) lt]
    have h1: "holds ops t1 (2*i + 1) lo ?m A \<and> holds ops t1 (2*i + 2) (?m + 1) hi A \<and>
        holds ops t1 i lo hi A"
      if "compose_ok ops" "holds ops t i lo hi A"
      using rl(1) [OF that] by (simp add: holds_node [OF lt rs(6)])
    have g1: "good ops t1 i lo hi \<and> good ops t1 (2*i + 1) lo ?m \<and> good ops t1 (2*i + 2) (?m + 1) hi"
      if "compose_ok ops" "holds ops t i lo hi A" "algebra_ok ops" "good ops t i lo hi"
      using rl(2) [OF that] by (simp add: good_node [OF lt])
    consider (both) "ql \<le> ?m" "?m < qh" | (left) "ql \<le> ?m" "qh \<le> ?m" | (right) "?m < ql"
      by linarith
    then show ?thesis
    proof cases
      case both
      have mm: "min qh ?m = ?m" "max ql (?m + 1) = ?m + 1" using both by auto
      obtain a t2 where t2: "query_rec ops (2*i + 1) lo ?m ql ?m t1 = Some (Inr (a, t2))"
        "sized N t2" "len t2 = len t1" "frame (desc (2*i + 1)) t1 t2"
        "compose_ok ops \<longrightarrow> holds ops t1 (2*i + 1) lo ?m A \<longrightarrow>
           holds ops t2 (2*i + 1) lo ?m A \<and>
           (algebra_ok ops \<longrightarrow> good ops t1 (2*i + 1) lo ?m \<longrightarrow>
              good ops t2 (2*i + 1) lo ?m \<and> a = join_list (join_values ops) (map A [ql..?m]))"
        using node.IH(1) [OF lt conjunct1 [OF ch] node.prems(2,3) both(1) order_refl rs(3)]
        by blast
      have qh': "?m + 1 \<le> qh" using both(2) by simp
      obtain b t3 where t3: "query_rec ops (2*i + 2) (?m + 1) hi (?m + 1) qh t2 = Some (Inr (b, t3))"
        "sized N t3" "len t3 = len t2" "frame (desc (2*i + 2)) t2 t3"
        "compose_ok ops \<longrightarrow> holds ops t2 (2*i + 2) (?m + 1) hi A \<longrightarrow>
           holds ops t3 (2*i + 2) (?m + 1) hi A \<and>
           (algebra_ok ops \<longrightarrow> good ops t2 (2*i + 2) (?m + 1) hi \<longrightarrow>
              good ops t3 (2*i + 2) (?m + 1) hi \<and> b = join_list (join_values ops) (map A [?m + 1..qh]))"
        using node.IH(2) [OF lt conjunct2 [OF ch] m(4) order_refl qh' node.prems(5) t2(2)]
        by blast
      have run: "query_rec ops i lo hi ql qh t = Some (Inr (join_values ops a b, t3))"
        using False both rs(1,2) t2(1) t3(1)
        by (subst query_rec.simps) (auto simp: twice m(5) mm)
      have np: "\<not> pd t3 i"
        using frame_parent(3) [OF i0 t2(4)] frame_parent(3) [OF i0 t3(4)] rs(6) by simp
      have f12: "frame (desc i) t1 t2" using frame_up [OF t2(4), of i] by simp
      have f23: "frame (desc i) t2 t3" using frame_up [OF t3(4), of i] by simp
      have fr: "frame (desc i) t t3" by (rule frame_trans [OF rs(5) frame_trans [OF f12 f23]])
      have ne: "ql \<noteq> qh" using both by simp
      have logic: "holds ops t3 i lo hi A \<and>
          (algebra_ok ops \<longrightarrow> good ops t i lo hi \<longrightarrow>
             good ops t3 i lo hi \<and> join_values ops a b = join_list (join_values ops) (map A [ql..qh]))"
        if c: "compose_ok ops" and h: "holds ops t i lo hi A"
      proof -
        note hh = h1 [OF c h]
        have l2: "holds ops t2 (2*i + 1) lo ?m A" using t2(5) c hh by simp
        have h2: "holds ops t2 (2*i + 2) (?m + 1) hi A"
          using sibling_keep(2) [OF i0 t2(4), of "2*i + 2"] hh by simp
        then have r3: "holds ops t3 (2*i + 2) (?m + 1) hi A" using t3(5) c by simp
        note ra = reassemble [OF i0 lt rs(6) t2(4) t3(4) l2 r3]
        have agg: "good ops t3 i lo hi \<and>
            join_values ops a b = join_list (join_values ops) (map A [ql..qh])"
          if al: "algebra_ok ops" and gd: "good ops t i lo hi"
        proof -
          note g = g1 [OF c h al gd]
          have l: "good ops t2 (2*i + 1) lo ?m" "a = join_list (join_values ops) (map A [ql..?m])"
            using t2(5) c al hh g by simp_all
          have "good ops t2 (2*i + 2) (?m + 1) hi"
            using sibling_keep(3) [OF i0 t2(4), of "2*i + 2"] g by simp
          then have r: "good ops t3 (2*i + 2) (?m + 1) hi"
            "b = join_list (join_values ops) (map A [?m + 1..qh])"
            using t3(5) c al h2 by simp_all
          have "good ops t3 i lo hi"
            using g hh
            by (intro reassemble_good [OF al i0 lt rs(6) _ _ t2(4) t3(4) l(1) l2 r(1) r3]) simp_all
          then show ?thesis
            unfolding l(2) r(2) using join_list_split [OF al both] by simp
        qed
        show ?thesis using ra(3) agg by blast
      qed
      show ?thesis using run t3(2) t3(3) t2(3) rs(4) fr np ne logic by auto
    next
      case left
      have mm: "min qh ?m = qh" using left by auto
      obtain r t2 where t2: "query_rec ops (2*i + 1) lo ?m ql qh t1 = Some (Inr (r, t2))"
        "sized N t2" "len t2 = len t1" "frame (desc (2*i + 1)) t1 t2"
        "compose_ok ops \<longrightarrow> holds ops t1 (2*i + 1) lo ?m A \<longrightarrow>
           holds ops t2 (2*i + 1) lo ?m A \<and> (ql = qh \<longrightarrow> r = A ql) \<and>
           (algebra_ok ops \<longrightarrow> good ops t1 (2*i + 1) lo ?m \<longrightarrow>
              good ops t2 (2*i + 1) lo ?m \<and> r = join_list (join_values ops) (map A [ql..qh]))"
        using node.IH(1) [OF lt conjunct1 [OF ch] node.prems(2,3,4) left(2) rs(3)]
        by blast
      have run: "query_rec ops i lo hi ql qh t = Some (Inr (r, t2))"
        using False left rs(1,2) t2(1)
        by (subst query_rec.simps) (auto simp: twice m(5) mm)
      have np: "\<not> pd t2 i" using frame_parent(3) [OF i0 t2(4)] rs(6) by simp
      have f12: "frame (desc i) t1 t2" using frame_up [OF t2(4), of i] by simp
      have fr: "frame (desc i) t t2" by (rule frame_trans [OF rs(5) f12])
      have logic: "holds ops t2 i lo hi A \<and> (ql = qh \<longrightarrow> r = A ql) \<and>
          (algebra_ok ops \<longrightarrow> good ops t i lo hi \<longrightarrow>
             good ops t2 i lo hi \<and> r = join_list (join_values ops) (map A [ql..qh]))"
        if c: "compose_ok ops" and h: "holds ops t i lo hi A"
      proof -
        note hh = h1 [OF c h]
        have l2: "holds ops t2 (2*i + 1) lo ?m A" "ql = qh \<longrightarrow> r = A ql"
          using t2(5) c hh by simp_all
        have h2: "holds ops t2 (2*i + 2) (?m + 1) hi A"
          using sibling_keep(2) [OF i0 t2(4), of "2*i + 2"] hh by simp
        note ra = reassemble [OF i0 lt rs(6) t2(4) frame_refl l2(1) h2]
        have agg: "good ops t2 i lo hi \<and> r = join_list (join_values ops) (map A [ql..qh])"
          if al: "algebra_ok ops" and gd: "good ops t i lo hi"
        proof -
          note g = g1 [OF c h al gd]
          have l: "good ops t2 (2*i + 1) lo ?m" "r = join_list (join_values ops) (map A [ql..qh])"
            using t2(5) c al hh g by simp_all
          have r2: "good ops t2 (2*i + 2) (?m + 1) hi"
            using sibling_keep(3) [OF i0 t2(4), of "2*i + 2"] g by simp
          have "good ops t2 i lo hi"
            using g hh
            by (intro reassemble_good [OF al i0 lt rs(6) _ _ t2(4) frame_refl l(1) l2(1) r2 h2])
              simp_all
          then show ?thesis using l(2) by simp
        qed
        show ?thesis using ra(3) l2(2) agg by blast
      qed
      show ?thesis using run t2(2,3) rs(4) fr np logic by auto
    next
      case right
      have mm: "max ql (?m + 1) = ql" "\<not> ql \<le> ?m" using right by auto
      have ql': "?m + 1 \<le> ql" using right by simp
      obtain r t2 where t2: "query_rec ops (2*i + 2) (?m + 1) hi ql qh t1 = Some (Inr (r, t2))"
        "sized N t2" "len t2 = len t1" "frame (desc (2*i + 2)) t1 t2"
        "compose_ok ops \<longrightarrow> holds ops t1 (2*i + 2) (?m + 1) hi A \<longrightarrow>
           holds ops t2 (2*i + 2) (?m + 1) hi A \<and> (ql = qh \<longrightarrow> r = A ql) \<and>
           (algebra_ok ops \<longrightarrow> good ops t1 (2*i + 2) (?m + 1) hi \<longrightarrow>
              good ops t2 (2*i + 2) (?m + 1) hi \<and> r = join_list (join_values ops) (map A [ql..qh]))"
        using node.IH(2) [OF lt conjunct2 [OF ch] m(4) ql' node.prems(4,5) rs(3)]
        by blast
      have run: "query_rec ops i lo hi ql qh t = Some (Inr (r, t2))"
        using False right rs(1,2) t2(1)
        by (subst query_rec.simps) (auto simp: twice m(5) mm)
      have np: "\<not> pd t2 i" using frame_parent(3) [OF i0 t2(4)] rs(6) by simp
      have f12: "frame (desc i) t1 t2" using frame_up [OF t2(4), of i] by simp
      have fr: "frame (desc i) t t2" by (rule frame_trans [OF rs(5) f12])
      have logic: "holds ops t2 i lo hi A \<and> (ql = qh \<longrightarrow> r = A ql) \<and>
          (algebra_ok ops \<longrightarrow> good ops t i lo hi \<longrightarrow>
             good ops t2 i lo hi \<and> r = join_list (join_values ops) (map A [ql..qh]))"
        if c: "compose_ok ops" and h: "holds ops t i lo hi A"
      proof -
        note hh = h1 [OF c h]
        have r2: "holds ops t2 (2*i + 2) (?m + 1) hi A" "ql = qh \<longrightarrow> r = A ql"
          using t2(5) c hh by simp_all
        have l1: "holds ops t1 (2*i + 1) lo ?m A" using hh by simp
        note ra = reassemble [OF i0 lt rs(6) frame_refl t2(4) l1 r2(1)]
        have agg: "good ops t2 i lo hi \<and> r = join_list (join_values ops) (map A [ql..qh])"
          if al: "algebra_ok ops" and gd: "good ops t i lo hi"
        proof -
          note g = g1 [OF c h al gd]
          have rg: "good ops t2 (2*i + 2) (?m + 1) hi"
            "r = join_list (join_values ops) (map A [ql..qh])"
            using t2(5) c al hh g by simp_all
          have "good ops t2 i lo hi"
            using g hh
            by (intro reassemble_good [OF al i0 lt rs(6) _ _ frame_refl t2(4) _ l1 rg(1) r2(1)])
              simp_all
          then show ?thesis using rg(2) by simp
        qed
        show ?thesis using ra(3) r2(2) agg by blast
      qed
      show ?thesis using run t2(2,3) rs(4) fr np logic by auto
    qed
  qed
qed

lemma update_rec_ok:
  "fits N i lo hi \<Longrightarrow> 0 \<le> lo \<Longrightarrow> lo \<le> hi \<Longrightarrow> sized N t \<Longrightarrow>
   \<exists>t'. update_rec ops i lo hi ql qh d t = Some (Inr t') \<and> sized N t' \<and> len t' = len t \<and>
      frame (desc i) t t' \<and> \<not> pd t' i \<and>
      (hi < ql \<or> qh < lo \<longrightarrow> t' = push ops i (dl t i) lo hi t) \<and>
      (compose_ok ops \<longrightarrow> holds ops t i lo hi A \<longrightarrow>
         holds ops t' i lo hi (upd ops ql qh d A) \<and>
         (algebra_ok ops \<longrightarrow> good ops t i lo hi \<longrightarrow> good ops t' i lo hi))"
proof (induction i lo hi arbitrary: t rule: span_induct)
  case (node i lo hi)
  define t1 where "t1 = push ops i (dl t i) lo hi t"
  note le = node.prems(3)
  note rs = resolve_run [OF node.prems(4) node.prems(1) le t1_def]
  note rl = resolve_logic [OF _ node.prems(4) node.prems(1) le _ t1_def]
  have b: "0 \<le> i" "i < N" using fits_here [OF node.prems(1)] by auto
  let ?A' = "upd ops ql qh d A"
  consider (disjoint) "hi < ql \<or> lo > qh"
    | (inside) "\<not> (hi < ql \<or> lo > qh)" "ql \<le> lo \<and> hi \<le> qh"
    | (partial) "\<not> (hi < ql \<or> lo > qh)" "\<not> (ql \<le> lo \<and> hi \<le> qh)"
    by blast
  then show ?case
  proof cases
    case disjoint
    have run: "update_rec ops i lo hi ql qh d t = Some (Inr t1)"
      using disjoint rs(1,2) by (subst update_rec.simps) simp
    have logic: "holds ops t1 i lo hi ?A' \<and>
        (algebra_ok ops \<longrightarrow> good ops t i lo hi \<longrightarrow> good ops t1 i lo hi)"
      if c: "compose_ok ops" and h: "holds ops t i lo hi A"
    proof -
      have "holds ops t1 i lo hi ?A' = holds ops t1 i lo hi A"
        using disjoint by (intro holds_cong) (auto simp: upd_def)
      then have "holds ops t1 i lo hi ?A'" using rl(1) [OF c h] by simp
      moreover have "good ops t1 i lo hi" if "algebra_ok ops" "good ops t i lo hi"
        using rl(2) [OF c h that] by simp
      ultimately show ?thesis by blast
    qed
    show ?thesis using run rs(3-6) logic t1_def by blast
  next
    case inside
    define t2 where "t2 = setpd t1 i"
    define t3 where "t3 = push ops i d lo hi t2"
    have s2: "sized N t2" using rs(3) by (simp add: t2_def)
    have p2: "pd t2 i" using b by (simp add: t2_def pd_setpd [OF rs(3)])
    have w: "vector_set (pending t1) i True = Inr ((pending t1)[nat i := True])"
      using rs(3) b by (simp add: vector_set_in sized_def)
    have u: "update_delta ops i d lo hi t2 = Inr t3"
      unfolding t3_def by (rule update_delta_fits [OF s2 node.prems(1) le])
    have run: "update_rec ops i lo hi ql qh d t = Some (Inr t3)"
      using inside rs(1,2) w u
      by (subst update_rec.simps) (simp add: t2_def setpd_def)
    have f12: "frame (desc i) t1 t2" unfolding t2_def by (rule frame_setpd [OF rs(3) b])
    have f23: "frame (desc i) t2 t3" unfolding t3_def by (rule frame_push [OF s2 node.prems(1) le])
    have f: "frame (desc i) t t3"
      by (rule frame_trans [OF rs(5) frame_trans [OF f12 f23]])
    have np: "\<not> pd t3 i" unfolding t3_def by (rule push_at(1) [OF s2 node.prems(1) le])
    have l: "len t3 = len t" using rs(4) by (simp add: t3_def t2_def)
    have s3: "sized N t3" using s2 by (simp add: t3_def)
    have logic: "holds ops t3 i lo hi ?A' \<and>
        (algebra_ok ops \<longrightarrow> good ops t i lo hi \<longrightarrow> good ops t3 i lo hi)"
      if c: "compose_ok ops" and h: "holds ops t i lo hi A"
    proof -
      have bs: "base ops t2 i lo hi = map A [lo..hi]"
      proof -
        have "base ops t2 i lo hi = base ops t1 i lo hi"
          unfolding t2_def using setpd_below [OF rs(3) b] b(1) by (intro base_cong) auto
        also have "\<dots> = lvals ops t1 i lo hi" by (simp add: lvals_clean [OF rs(6)])
        finally show ?thesis using rl(1) [OF c h] by (simp add: holds_def)
      qed
      have "map (\<lambda>v. join_value_with_delta ops v d 1) (map A [lo..hi]) = map ?A' [lo..hi]"
        using inside(2) by (auto simp: upd_def)
      then have hh: "holds ops t3 i lo hi ?A'"
        unfolding t3_def holds_def lvals_push [OF c s2 node.prems(1) le p2] bs .
      have g: "good ops t3 i lo hi" if "algebra_ok ops" "good ops t i lo hi"
      proof -
        have "good ops t2 i lo hi = good ops t1 i lo hi"
          unfolding t2_def using setpd_below [OF rs(3) b] b(1) by (intro good_cong) auto
        then have "good ops t2 i lo hi" using rl(2) [OF c h that] by simp
        then show ?thesis unfolding t3_def by (rule good_push [OF that(1) s2 node.prems(1) le p2])
      qed
      show ?thesis using hh g by blast
    qed
    show ?thesis using run s3 l f np logic inside(1) by auto
  next
    case partial
    then have lt: "lo < hi" using le by linarith
    let ?m = "(lo + hi) div 2"
    have m: "lo \<le> ?m" "?m < hi" "?m + 1 \<le> hi" "0 \<le> ?m + 1" "cdiv (lo + hi) 2 = ?m"
      using lt node.prems(2) by (auto simp: cdiv_nonneg)
    note ch = fits_children [OF node.prems(1) lt]
    obtain t2 where t2: "update_rec ops (2*i + 1) lo ?m ql qh d t1 = Some (Inr t2)"
      "sized N t2" "len t2 = len t1" "frame (desc (2*i + 1)) t1 t2" "\<not> pd t2 (2*i + 1)"
      "compose_ok ops \<longrightarrow> holds ops t1 (2*i + 1) lo ?m A \<longrightarrow>
         holds ops t2 (2*i + 1) lo ?m ?A' \<and>
         (algebra_ok ops \<longrightarrow> good ops t1 (2*i + 1) lo ?m \<longrightarrow> good ops t2 (2*i + 1) lo ?m)"
      using node.IH(1) [OF lt conjunct1 [OF ch] node.prems(2) m(1) rs(3)] by blast
    obtain t3 where t3: "update_rec ops (2*i + 2) (?m + 1) hi ql qh d t2 = Some (Inr t3)"
      "sized N t3" "len t3 = len t2" "frame (desc (2*i + 2)) t2 t3" "\<not> pd t3 (2*i + 2)"
      "compose_ok ops \<longrightarrow> holds ops t2 (2*i + 2) (?m + 1) hi A \<longrightarrow>
         holds ops t3 (2*i + 2) (?m + 1) hi ?A' \<and>
         (algebra_ok ops \<longrightarrow> good ops t2 (2*i + 2) (?m + 1) hi \<longrightarrow> good ops t3 (2*i + 2) (?m + 1) hi)"
      using node.IH(2) [OF lt conjunct2 [OF ch] m(4,3) t2(2)] by blast
    define t4 where "t4 = setval t3 i (join_values ops (val t3 (2*i + 1)) (val t3 (2*i + 2)))"
    have run: "update_rec ops i lo hi ql qh d t = Some (Inr t4)"
      unfolding t4_def
      by (subst update_rec.simps)
        (simp add: partial rs(1,2) t2(1) t3(1) m(5) recompute_run [OF t3(2) node.prems(1) lt])
    have np3l: "\<not> pd t3 (2*i + 1)"
      using sibling_keep(4) [OF b(1) t3(4), of "2*i + 1"] t2(5) by simp
    have np3: "\<not> pd t3 i"
      using frame_parent(3) [OF b(1) t2(4)] frame_parent(3) [OF b(1) t3(4)] rs(6) by simp
    have np: "\<not> pd t4 i" using np3 by (simp add: t4_def)
    have f12: "frame (desc i) t1 t2" using frame_up [OF t2(4), of i] by simp
    have f23: "frame (desc i) t2 t3" using frame_up [OF t3(4), of i] by simp
    have f34: "frame (desc i) t3 t4" unfolding t4_def by (rule frame_setval [OF t3(2) b])
    have f: "frame (desc i) t t4"
      by (rule frame_trans [OF rs(5) frame_trans [OF f12 frame_trans [OF f23 f34]]])
    have l: "len t4 = len t" using rs(4) t2(3) t3(3) by (simp add: t4_def)
    have s4: "sized N t4" using t3(2) by (simp add: t4_def)
    have logic: "holds ops t4 i lo hi ?A' \<and>
        (algebra_ok ops \<longrightarrow> good ops t i lo hi \<longrightarrow> good ops t4 i lo hi)"
      if c: "compose_ok ops" and h: "holds ops t i lo hi A"
    proof -
      have h1: "holds ops t1 (2*i + 1) lo ?m A" "holds ops t1 (2*i + 2) (?m + 1) hi A"
        using rl(1) [OF c h] by (simp_all add: holds_node [OF lt rs(6)])
      have l2: "holds ops t2 (2*i + 1) lo ?m ?A'" using t2(6) c h1(1) by simp
      have h2: "holds ops t2 (2*i + 2) (?m + 1) hi A"
        using sibling_keep(2) [OF b(1) t2(4), of "2*i + 2"] h1(2) by simp
      then have r3: "holds ops t3 (2*i + 2) (?m + 1) hi ?A'" using t3(6) c by simp
      have l3: "holds ops t3 (2*i + 1) lo ?m ?A'"
        using sibling_keep(2) [OF b(1) t3(4), of "2*i + 1"] l2 by simp
      have hh: "holds ops t4 i lo hi ?A'"
        unfolding t4_def using l3 r3 by (simp add: recompute_holds [OF t3(2) node.prems(1) lt np3])
      have g: "good ops t4 i lo hi" if al: "algebra_ok ops" and gd: "good ops t i lo hi"
      proof -
        have g1: "good ops t1 (2*i + 1) lo ?m" "good ops t1 (2*i + 2) (?m + 1) hi"
          using rl(2) [OF c h al gd] by (simp_all add: good_node [OF lt])
        have g2: "good ops t2 (2*i + 1) lo ?m" using t2(6) c al h1(1) g1(1) by simp
        have "good ops t2 (2*i + 2) (?m + 1) hi"
          using sibling_keep(3) [OF b(1) t2(4), of "2*i + 2"] g1(2) by simp
        then have g3: "good ops t3 (2*i + 2) (?m + 1) hi" using t3(6) c al h2 by simp
        have g3': "good ops t3 (2*i + 1) lo ?m"
          using sibling_keep(3) [OF b(1) t3(4), of "2*i + 1"] g2 by simp
        show ?thesis
          unfolding t4_def
          by (rule recompute_good [OF t3(2) node.prems(1) lt g3' g3 np3l t3(5)])
      qed
      show ?thesis using hh g by blast
    qed
    show ?thesis using run s4 l f np logic partial(1) by auto
  qed
qed

subsection \<open>Calls, histories and the array they describe\<close>

lemma query_ok:
  assumes "shaped n t" "0 \<le> lo" "lo \<le> hi" "hi < n"
  shows "\<exists>r t'. query ops t lo hi = Some (Inr (r, t')) \<and> shaped n t' \<and>
      (compose_ok ops \<longrightarrow> holds ops t 0 0 (n - 1) A \<longrightarrow>
         holds ops t' 0 0 (n - 1) A \<and> (lo = hi \<longrightarrow> r = A lo) \<and>
         (algebra_ok ops \<longrightarrow> good ops t 0 0 (n - 1) \<longrightarrow>
            good ops t' 0 0 (n - 1) \<and> r = join_list (join_values ops) (map A [lo..hi])))"
proof -
  have n: "1 \<le> n" "len t = n" "sized (4 * n) t" using assms(1) by (simp_all add: shaped_def)
  have hi': "hi \<le> n - 1" using assms(4) by simp
  from query_rec_ok [OF fits_root [OF n(1)] order_refl assms(2,3) hi' n(3), of ops A]
  show ?thesis unfolding query_def n(2) shaped_def using n(1) by auto
qed

lemma at_ok:
  assumes "shaped n t" "0 \<le> i" "i < n"
  shows "\<exists>r t'. at ops t i = Some (Inr (r, t')) \<and> shaped n t' \<and>
      (compose_ok ops \<longrightarrow> holds ops t 0 0 (n - 1) A \<longrightarrow>
         holds ops t' 0 0 (n - 1) A \<and> r = A i \<and>
         (algebra_ok ops \<longrightarrow> good ops t 0 0 (n - 1) \<longrightarrow> good ops t' 0 0 (n - 1)))"
  using query_ok [OF assms(1,2) order_refl assms(3), of ops A] unfolding at_def by auto

lemma update_range_ok:
  assumes "shaped n t"
  shows "\<exists>t'. update_range ops t lo hi d = Some (Inr t') \<and> shaped n t' \<and>
      (n - 1 < lo \<or> hi < 0 \<longrightarrow> t' = t) \<and>
      (compose_ok ops \<longrightarrow> holds ops t 0 0 (n - 1) A \<longrightarrow>
         holds ops t' 0 0 (n - 1) (upd ops lo hi d A) \<and>
         (algebra_ok ops \<longrightarrow> good ops t 0 0 (n - 1) \<longrightarrow> good ops t' 0 0 (n - 1)))"
proof -
  have n: "1 \<le> n" "len t = n" "sized (4 * n) t" "\<not> pd t 0"
    using assms(1) by (simp_all add: shaped_def)
  have le: "0 \<le> n - 1" using n(1) by simp
  have idle: "push ops 0 (dl t 0) 0 (n - 1) t = t" by (rule push_idle [OF n(4)])
  from update_rec_ok [OF fits_root [OF n(1)] order_refl le n(3), of ops lo hi d A]
  show ?thesis unfolding update_range_def n(2) shaped_def idle using n(1) by auto
qed

lemma update_point_range: "update_point ops t i d = update_range ops t i i d"
  by (simp add: update_point_def update_range_def)

lemma upd_point: "upd ops i i d A = (\<lambda>j. if j = i then join_value_with_delta ops (A j) d 1 else A j)"
  by (auto simp: upd_def fun_eq_iff)

lemma exec_ok:
  assumes "shaped n t" "valid_call n c"
  shows "\<exists>t'. exec ops c t = Some (Inr t') \<and> shaped n t' \<and>
      (compose_ok ops \<longrightarrow> holds ops t 0 0 (n - 1) A \<longrightarrow>
         holds ops t' 0 0 (n - 1) (\<lambda>j. effect ops c j (A j)) \<and>
         (algebra_ok ops \<longrightarrow> good ops t 0 0 (n - 1) \<longrightarrow> good ops t' 0 0 (n - 1)))"
proof (cases c)
  case (At i)
  then show ?thesis using at_ok [OF assms(1), of i ops A] assms(2) by auto
next
  case (Query lo hi)
  then show ?thesis using query_ok [OF assms(1), of lo hi ops A] assms(2) by auto
next
  case (UpdatePoint i d)
  then show ?thesis
    using update_range_ok [OF assms(1), of ops i i d A]
    by (auto simp: update_point_range upd_point)
next
  case (UpdateRange lo hi d)
  then show ?thesis
    using update_range_ok [OF assms(1), of ops lo hi d A] by (auto simp: upd_def)
qed

lemma run_ok:
  "shaped n t \<Longrightarrow> \<forall>c\<in>set cs. valid_call n c \<Longrightarrow>
   \<exists>t'. run ops cs t = Some (Inr t') \<and> shaped n t' \<and>
      (compose_ok ops \<longrightarrow> holds ops t 0 0 (n - 1) A \<longrightarrow>
         holds ops t' 0 0 (n - 1) (\<lambda>j. logical ops cs j (A j)) \<and>
         (algebra_ok ops \<longrightarrow> good ops t 0 0 (n - 1) \<longrightarrow> good ops t' 0 0 (n - 1)))"
proof (induction cs arbitrary: t A)
  case Nil
  then show ?case by (simp add: logical_def)
next
  case (Cons c cs)
  have vc: "valid_call n c" and vcs: "\<forall>c\<in>set cs. valid_call n c" using Cons.prems(2) by auto
  obtain t1 where t1: "exec ops c t = Some (Inr t1)" "shaped n t1"
    "compose_ok ops \<longrightarrow> holds ops t 0 0 (n - 1) A \<longrightarrow>
       holds ops t1 0 0 (n - 1) (\<lambda>j. effect ops c j (A j)) \<and>
       (algebra_ok ops \<longrightarrow> good ops t 0 0 (n - 1) \<longrightarrow> good ops t1 0 0 (n - 1))"
    using exec_ok [OF Cons.prems(1) vc, of ops A] by blast
  obtain t2 where t2: "run ops cs t1 = Some (Inr t2)" "shaped n t2"
    "compose_ok ops \<longrightarrow> holds ops t1 0 0 (n - 1) (\<lambda>j. effect ops c j (A j)) \<longrightarrow>
       holds ops t2 0 0 (n - 1) (\<lambda>j. logical ops cs j (effect ops c j (A j))) \<and>
       (algebra_ok ops \<longrightarrow> good ops t1 0 0 (n - 1) \<longrightarrow> good ops t2 0 0 (n - 1))"
    using Cons.IH [OF t1(2) vcs, of "\<lambda>j. effect ops c j (A j)"] by blast
  have lg: "logical ops (c # cs) j v = logical ops cs j (effect ops c j v)" for j v
    by (simp add: logical_def)
  have "run ops (c # cs) t = Some (Inr t2)" using t1(1) t2(1) by simp
  then show ?case using t2(2,3) t1(3) unfolding lg by blast
qed

subsection \<open>The constructors\<close>

lemma segment_tree_iter_ok:
  assumes "arr \<noteq> []"
  shows "\<exists>t. segment_tree_iter ops arr = Some (Inr t) \<and> shaped (int (length arr)) t \<and>
      holds ops t 0 0 (int (length arr) - 1) (\<lambda>j. arr ! nat j) \<and>
      good ops t 0 0 (int (length arr) - 1)"
proof -
  let ?n = "int (length arr)"
  let ?t0 = "\<lparr>len = ?n, value = replicate (4 * length arr) (0::'a),
      delta = replicate (4 * length arr) 0, pending = replicate (4 * length arr) False\<rparr>"
  have n: "1 \<le> ?n" using assms by (cases arr) auto
  have s: "sized (4 * ?n) ?t0" by (simp add: sized_def)
  have np: "\<forall>j. 0 \<le> j \<and> j < 4 * ?n \<longrightarrow> \<not> pd ?t0 j" by (auto simp: pd_def)
  have le: "0 \<le> ?n - 1" "?n - 1 < ?n" using n by auto
  obtain t where t: "build_iter ops 0 0 (?n - 1) arr ?t0 = Some (Inr t)" "sized (4 * ?n) t"
    "len t = len ?t0" "pending t = pending ?t0"
    "holds ops t 0 0 (?n - 1) (\<lambda>j. arr ! nat j)" "good ops t 0 0 (?n - 1)"
    using build_iter_ok [OF fits_root [OF n] order_refl le s np, of ops] by blast
  have "0 < 4 * length arr" using assms by (cases arr) auto
  then have "\<not> pd t 0" using t(4) by (simp add: pd_def)
  then show ?thesis using t n by (simp add: segment_tree_iter_def shaped_def)
qed

lemma segment_tree_fill_iter:
  assumes "1 \<le> n"
  shows "segment_tree_fill ops n v = segment_tree_iter ops (replicate (nat n) v)"
proof -
  have e: "nat (4 * n) = 4 * nat n" "int (nat n) = n" using assms by auto
  have "n - 1 < int (nat n)" using assms by simp
  from build_fill_iter [OF order_refl _ this, of ops 0 v] assms
  show ?thesis by (simp add: segment_tree_fill_def segment_tree_iter_def e)
qed

lemma reach_ok:
  assumes "arr \<noteq> []" "\<forall>c\<in>set cs. valid_call (int (length arr)) c"
  shows "\<exists>t. reach ops arr cs = Some (Inr t) \<and> shaped (int (length arr)) t \<and>
      (compose_ok ops \<longrightarrow>
         holds ops t 0 0 (int (length arr) - 1) (\<lambda>j. logical ops cs j (arr ! nat j)) \<and>
         (algebra_ok ops \<longrightarrow> good ops t 0 0 (int (length arr) - 1)))"
proof -
  obtain t0 where t0: "segment_tree_iter ops arr = Some (Inr t0)" "shaped (int (length arr)) t0"
    "holds ops t0 0 0 (int (length arr) - 1) (\<lambda>j. arr ! nat j)"
    "good ops t0 0 0 (int (length arr) - 1)"
    using segment_tree_iter_ok [OF assms(1), of ops] by blast
  from run_ok [OF t0(2) assms(2), of ops "\<lambda>j. arr ! nat j"] t0
  show ?thesis by (auto simp: reach_def)
qed

subsection \<open>A state without pending deltas\<close>

lemma query_rec_clean:
  "fits N i lo hi \<Longrightarrow> 0 \<le> lo \<Longrightarrow> lo \<le> ql \<Longrightarrow> ql \<le> qh \<Longrightarrow> qh \<le> hi \<Longrightarrow> sized N t \<Longrightarrow>
   \<forall>j. 0 \<le> j \<and> j < N \<longrightarrow> \<not> pd t j \<Longrightarrow>
   \<exists>r. query_rec ops i lo hi ql qh t = Some (Inr (r, t)) \<and>
       (holds ops t i lo hi A \<longrightarrow> ql = qh \<longrightarrow> r = A ql)"
proof (induction i lo hi arbitrary: ql qh rule: span_induct)
  case (node i lo hi)
  have le: "lo \<le> hi" using node.prems by linarith
  have b: "0 \<le> i" "i < N" using fits_here [OF node.prems(1)] by auto
  have np: "\<not> pd t i" using node.prems(7) b by simp
  have idle: "push ops i (dl t i) lo hi t = t" by (rule push_idle [OF np])
  note rs = resolve_run [OF node.prems(6) node.prems(1) le idle [symmetric]]
  show ?case
  proof (cases "lo = ql \<and> hi = qh")
    case True
    have run: "query_rec ops i lo hi ql qh t = Some (Inr (val t i, t))"
      using True rs(1,2,7) by (subst query_rec.simps) simp
    have "val t i = A ql" if "holds ops t i lo hi A" "ql = qh"
      using that True np by (simp add: holds_leaf)
    then show ?thesis using run by blast
  next
    case False
    then have lt: "lo < hi" using node.prems by linarith
    let ?m = "(lo + hi) div 2"
    have m: "lo \<le> ?m" "?m < hi" "?m + 1 \<le> hi" "0 \<le> ?m + 1" "cdiv (lo + hi) 2 = ?m"
      using lt node.prems(2) by (auto simp: cdiv_nonneg)
    note ch = fits_children [OF node.prems(1) lt]
    note hn = holds_node [OF lt np, of ops A]
    consider (both) "ql \<le> ?m" "?m < qh" | (left) "ql \<le> ?m" "qh \<le> ?m" | (right) "?m < ql"
      by linarith
    then show ?thesis
    proof cases
      case both
      have mm: "min qh ?m = ?m" "max ql (?m + 1) = ?m + 1" using both by auto
      have qh': "?m + 1 \<le> qh" using both(2) by simp
      obtain a where a: "query_rec ops (2*i + 1) lo ?m ql ?m t = Some (Inr (a, t))"
        using node.IH(1) [OF lt conjunct1 [OF ch] node.prems(2,3) both(1) order_refl node.prems(6,7)]
        by blast
      obtain c where c: "query_rec ops (2*i + 2) (?m + 1) hi (?m + 1) qh t = Some (Inr (c, t))"
        using node.IH(2) [OF lt conjunct2 [OF ch] m(4) order_refl qh' node.prems(5,6,7)]
        by blast
      have run: "query_rec ops i lo hi ql qh t = Some (Inr (join_values ops a c, t))"
        using False both rs(1,2) a c
        by (subst query_rec.simps) (auto simp: twice m(5) mm)
      show ?thesis using run both by auto
    next
      case left
      have mm: "min qh ?m = qh" using left by auto
      obtain r where r: "query_rec ops (2*i + 1) lo ?m ql qh t = Some (Inr (r, t))"
        "holds ops t (2*i + 1) lo ?m A \<longrightarrow> ql = qh \<longrightarrow> r = A ql"
        using node.IH(1) [OF lt conjunct1 [OF ch] node.prems(2,3,4) left(2) node.prems(6,7)]
        by blast
      have run: "query_rec ops i lo hi ql qh t = Some (Inr (r, t))"
        using False left rs(1,2) r(1)
        by (subst query_rec.simps) (auto simp: twice m(5) mm)
      show ?thesis using run r(2) hn by auto
    next
      case right
      have mm: "max ql (?m + 1) = ql" "\<not> ql \<le> ?m" using right by auto
      have ql': "?m + 1 \<le> ql" using right by simp
      obtain r where r: "query_rec ops (2*i + 2) (?m + 1) hi ql qh t = Some (Inr (r, t))"
        "holds ops t (2*i + 2) (?m + 1) hi A \<longrightarrow> ql = qh \<longrightarrow> r = A ql"
        using node.IH(2) [OF lt conjunct2 [OF ch] m(4) ql' node.prems(4,5,6,7)]
        by blast
      have run: "query_rec ops i lo hi ql qh t = Some (Inr (r, t))"
        using False right rs(1,2) r(1)
        by (subst query_rec.simps) (auto simp: twice m(5) mm)
      show ?thesis using run r(2) hn by auto
    qed
  qed
qed

lemma segment_tree_iter_clean:
  assumes "arr \<noteq> []"
  shows "\<exists>t. segment_tree_iter ops arr = Some (Inr t) \<and> len t = int (length arr) \<and>
      sized (4 * int (length arr)) t \<and> (\<forall>j. 0 \<le> j \<and> j < 4 * int (length arr) \<longrightarrow> \<not> pd t j) \<and>
      holds ops t 0 0 (int (length arr) - 1) (\<lambda>j. arr ! nat j)"
proof -
  let ?n = "int (length arr)"
  let ?t0 = "\<lparr>len = ?n, value = replicate (4 * length arr) (0::'a),
      delta = replicate (4 * length arr) 0, pending = replicate (4 * length arr) False\<rparr>"
  have n: "1 \<le> ?n" using assms by (cases arr) auto
  have s: "sized (4 * ?n) ?t0" by (simp add: sized_def)
  have np: "\<forall>j. 0 \<le> j \<and> j < 4 * ?n \<longrightarrow> \<not> pd ?t0 j" by (auto simp: pd_def)
  have le: "0 \<le> ?n - 1" "?n - 1 < ?n" using n by auto
  obtain t where t: "build_iter ops 0 0 (?n - 1) arr ?t0 = Some (Inr t)" "sized (4 * ?n) t"
    "len t = len ?t0" "pending t = pending ?t0"
    "holds ops t 0 0 (?n - 1) (\<lambda>j. arr ! nat j)"
    using build_iter_ok [OF fits_root [OF n] order_refl le s np, of ops] by blast
  have "\<forall>j. 0 \<le> j \<and> j < 4 * ?n \<longrightarrow> \<not> pd t j" using t(4) by (auto simp: pd_def)
  then show ?thesis using t by (simp add: segment_tree_iter_def)
qed

lemma at_after_construction:
  assumes "0 \<le> i" "i < int (length arr)"
  shows "\<exists>t. segment_tree_iter ops arr = Some (Inr t) \<and> size_tree t = int (length arr) \<and>
      at ops t i = Some (Inr (arr ! nat i, t))"
proof -
  let ?n = "int (length arr)"
  have ne: "arr \<noteq> []" and n: "1 \<le> ?n" using assms by auto
  obtain t where t: "segment_tree_iter ops arr = Some (Inr t)" "len t = ?n" "sized (4 * ?n) t"
    "\<forall>j. 0 \<le> j \<and> j < 4 * ?n \<longrightarrow> \<not> pd t j" "holds ops t 0 0 (?n - 1) (\<lambda>j. arr ! nat j)"
    using segment_tree_iter_clean [OF ne, of ops] by blast
  have hi: "i \<le> ?n - 1" using assms(2) by simp
  from query_rec_clean [OF fits_root [OF n] order_refl assms(1) order_refl hi t(3,4),
      of ops "\<lambda>j. arr ! nat j"] t(5)
  have "at ops t i = Some (Inr (arr ! nat i, t))" by (auto simp: at_def query_def t(2))
  then show ?thesis using t(1,2) by (simp add: size_tree_def)
qed

text \<open>Construction from a size \<open>n \<ge> 1\<close> and a fill value.\<close>

lemma segment_tree_fill_ok:
  assumes "1 \<le> n"
  shows "\<exists>t. segment_tree_fill ops n v = Some (Inr t) \<and> size_tree t = n \<and>
      (\<forall>i. 0 \<le> i \<and> i < n \<longrightarrow> at ops t i = Some (Inr (v, t)))"
proof -
  let ?arr = "replicate (nat n) v"
  have len: "int (length ?arr) = n" using assms by simp
  have i0: "(0::int) \<le> 0" "0 < int (length ?arr)" using assms by simp_all
  obtain t where t: "segment_tree_iter ops ?arr = Some (Inr t)" "size_tree t = int (length ?arr)"
    using at_after_construction [OF i0, of ops] by blast
  have f: "segment_tree_fill ops n v = Some (Inr t)"
    using segment_tree_fill_iter [OF assms, of ops v] t(1) by simp
  have "at ops t i = Some (Inr (v, t))" if "0 \<le> i \<and> i < n" for i
  proof -
    have b: "0 \<le> i" "i < int (length ?arr)" using that by simp_all
    obtain t' where t': "segment_tree_iter ops ?arr = Some (Inr t')"
      "at ops t' i = Some (Inr (?arr ! nat i, t'))"
      using at_after_construction [OF b, of ops] by blast
    have "t' = t" using t(1) t'(1) by simp
    moreover have "?arr ! nat i = v" using that by simp
    ultimately show ?thesis using t'(2) by simp
  qed
  then show ?thesis using f t(2) len by simp
qed

subsection \<open>The two instances satisfy the contracts\<close>

lemma default_algebra: "algebra_ok (default_ops :: ('a::linorder) ops)"
  by (simp add: algebra_ok_def default_ops_def min.assoc)

lemma default_compose: "compose_ok (default_ops :: ('a::linorder) ops)"
  by (simp add: compose_ok_def default_ops_def)

lemma sum_algebra: "algebra_ok sum_ops"
  by (simp add: algebra_ok_def sum_ops_def algebra_simps)

subsection \<open>Histories\<close>

lemma at_reach:
  assumes "compose_ok ops" "arr \<noteq> []" "\<forall>c\<in>set cs. valid_call (int (length arr)) c"
    "0 \<le> i" "i < int (length arr)"
  shows "\<exists>t r t'. reach ops arr cs = Some (Inr t) \<and> at ops t i = Some (Inr (r, t')) \<and>
      r = logical ops cs i (arr ! nat i)"
proof -
  let ?n = "int (length arr)"
  obtain t where t: "reach ops arr cs = Some (Inr t)" "shaped ?n t"
    "holds ops t 0 0 (?n - 1) (\<lambda>j. logical ops cs j (arr ! nat j))"
    using reach_ok [OF assms(2,3), of ops] assms(1) by blast
  from at_ok [OF t(2) assms(4,5), of ops "\<lambda>j. logical ops cs j (arr ! nat j)"] assms(1) t(3)
  show ?thesis using t(1) by blast
qed

lemma reach_append:
  "reach ops arr (cs @ cs') = bindO (reach ops arr cs) (run ops cs')"
proof -
  have "run ops (cs @ cs') t = bindO (run ops cs t) (run ops cs')" for t
  proof (induction cs arbitrary: t)
    case Nil
    show ?case by simp
  next
    case (Cons c cs)
    show ?case
    proof (cases "exec ops c t")
      case None
      then show ?thesis by simp
    next
      case (Some x)
      then show ?thesis by (cases x) (simp_all add: Cons.IH)
    qed
  qed
  then show ?thesis
  proof (cases "segment_tree_iter ops arr")
    case None
    then show ?thesis by (simp add: reach_def)
  next
    case (Some x)
    assume r: "\<And>t. run ops (cs @ cs') t = bindO (run ops cs t) (run ops cs')"
    from Some show ?thesis by (cases x) (simp_all add: reach_def r)
  qed
qed

lemma logical_append: "logical ops (cs @ cs') j v = logical ops cs' j (logical ops cs j v)"
  by (simp add: logical_def)

lemma logical_points_miss:
  "i \<notin> set ks \<Longrightarrow> logical ops (map (\<lambda>k. UpdatePoint k d) ks) i v = v"
  by (induction ks arbitrary: v) (auto simp: logical_def)

lemma logical_points_hit:
  assumes "lo \<le> i" "i \<le> hi"
  shows "logical ops (map (\<lambda>k. UpdatePoint k d) [lo..hi]) i v = join_value_with_delta ops v d 1"
proof -
  have sp: "[lo..hi] = [lo..i - 1] @ [i] @ [i + 1..hi]"
    using assms upto_split3 [of lo i hi] by simp
  have a: "i \<notin> set [lo..i - 1]" "i \<notin> set [i + 1..hi]" by auto
  show ?thesis
    unfolding sp map_append logical_append logical_points_miss [OF a(1)]
    by (simp add: logical_points_miss [OF a(2)]) (simp add: logical_def)
qed

subsection \<open>Reads outside the range, on an example\<close>

lemma query_rec_oob:
  "\<not> (0 \<le> i \<and> i < int (length (delta t))) \<Longrightarrow>
   query_rec ops i lo hi ql qh t = Some (Inl OutOfBounds)"
  by (subst query_rec.simps) (auto simp: vector_get_def)

lemma query_rec_step:
  "0 \<le> i \<and> i < int (length (delta t)) \<Longrightarrow>
   query_rec ops i lo hi ql qh t =
     (case update_delta ops i (delta t ! nat i) lo hi t of
        Inl e \<Rightarrow> Some (Inl e)
      | Inr t1 \<Rightarrow>
          if lo = ql \<and> hi = qh then Some (bindE (vector_get (value t1) i) (\<lambda>v. Inr (v, t1)))
          else if ql \<le> cdiv (lo + hi) 2 \<and> cdiv (lo + hi) 2 < qh then
            bindO (query_rec ops (i*2 + 1) lo (cdiv (lo + hi) 2) ql (min qh (cdiv (lo + hi) 2)) t1)
              (\<lambda>(a, t2).
            bindO (query_rec ops (i*2 + 2) (cdiv (lo + hi) 2 + 1) hi
                     (max ql (cdiv (lo + hi) 2 + 1)) qh t2) (\<lambda>(b, t3).
            Some (Inr (join_values ops a b, t3))))
          else if ql \<le> cdiv (lo + hi) 2 then
            query_rec ops (i*2 + 1) lo (cdiv (lo + hi) 2) ql (min qh (cdiv (lo + hi) 2)) t1
          else
            query_rec ops (i*2 + 2) (cdiv (lo + hi) 2 + 1) hi (max ql (cdiv (lo + hi) 2 + 1)) qh t1)"
  by (subst query_rec.simps) (auto simp: vector_get_def split: sum.splits)

text \<open>
  In the state reached from \<open>[6, 2]\<close> by \<^verbatim>\<open>update(0, 1, 5)\<close>, the calls \<^verbatim>\<open>query(-1, 0)\<close>,
  \<^verbatim>\<open>query(0, 2)\<close> and \<^verbatim>\<open>at(2)\<close> descend below the leaves until a node number leaves
  the vectors.
\<close>

lemma reads_outside_range_example:
  "query default_ops
     \<lparr>len = 2, value = [5, 6, 2, 0, 0, 0, 0, 0::int], delta = [0, 5, 5, 0, 0, 0, 0, 0],
      pending = [False, True, True, False, False, False, False, False]\<rparr> (-1) 0
     = Some (Inl OutOfBounds) \<and>
   query default_ops
     \<lparr>len = 2, value = [5, 6, 2, 0, 0, 0, 0, 0::int], delta = [0, 5, 5, 0, 0, 0, 0, 0],
      pending = [False, True, True, False, False, False, False, False]\<rparr> 0 2
     = Some (Inl OutOfBounds) \<and>
   at default_ops
     \<lparr>len = 2, value = [5, 6, 2, 0, 0, 0, 0, 0::int], delta = [0, 5, 5, 0, 0, 0, 0, 0],
      pending = [False, True, True, False, False, False, False, False]\<rparr> 2
     = Some (Inl OutOfBounds)"
  by (simp add: query_def at_def query_rec_step query_rec_oob update_delta_def
      bindE_def vector_get_def vector_set_def cdiv_def default_ops_def)

subsection \<open>Pushing every pending delta down\<close>

lemma no_pending_cong:
  "0 \<le> i \<Longrightarrow> agree_lazy (desc i) t t' \<Longrightarrow> no_pending t' i lo hi = no_pending t i lo hi"
proof (induction i lo hi rule: span_induct)
  case (node i lo hi)
  have p: "pd t' i = pd t i" using node.prems(2) desc_self [of i] by (simp add: agree_lazy_def)
  have sub: "agree_lazy (desc (2*i + 1)) t t'" "agree_lazy (desc (2*i + 2)) t t'"
    using node.prems(2) desc_left [of _ i] desc_right [of _ i] by (auto simp: agree_lazy_def)
  show ?case
  proof (cases "lo < hi")
    case True
    have "no_pending t' (2*i + 1) lo ((lo + hi) div 2) = no_pending t (2*i + 1) lo ((lo + hi) div 2)"
      using node.prems(1) sub(1) True by (intro node.IH(1)) auto
    moreover have "no_pending t' (2*i + 2) ((lo + hi) div 2 + 1) hi
        = no_pending t (2*i + 2) ((lo + hi) div 2 + 1) hi"
      using node.prems(1) sub(2) True by (intro node.IH(2)) auto
    ultimately show ?thesis
      using p by (subst no_pending.simps, subst (2) no_pending.simps) simp
  next
    case False
    then show ?thesis using p by (subst no_pending.simps, subst (2) no_pending.simps) simp
  qed
qed

lemma no_pending_here: "no_pending t i lo hi \<Longrightarrow> \<not> pd t i"
  by (subst (asm) no_pending.simps) simp

lemma no_pending_children:
  "no_pending t i lo hi \<Longrightarrow> lo < hi \<Longrightarrow>
   no_pending t (2*i + 1) lo ((lo + hi) div 2) \<and> no_pending t (2*i + 2) ((lo + hi) div 2 + 1) hi"
  by (subst (asm) no_pending.simps) simp

lemma clean_view:
  "no_pending t i lo hi \<Longrightarrow>
   lvals ops t i lo hi = leaves t i lo hi \<and> (good ops t i lo hi \<longleftrightarrow> aggregates_ok ops t i lo hi)"
proof (induction i lo hi rule: span_induct)
  case (node i lo hi)
  have np: "\<not> pd t i" by (rule no_pending_here [OF node.prems])
  show ?case
  proof (cases "lo < hi")
    case False
    then show ?thesis
      using np good_leaf [OF False, of ops t i]
      by (subst leaves.simps, subst aggregates_ok.simps) (simp add: lvals_clean base_def)
  next
    case True
    let ?m = "(lo + hi) div 2"
    have ch: "no_pending t (2*i + 1) lo ?m" "no_pending t (2*i + 2) (?m + 1) hi"
      using no_pending_children [OF node.prems True] by simp_all
    have cp: "\<not> pd t (2*i + 1)" "\<not> pd t (2*i + 2)"
      using no_pending_here [OF ch(1)] no_pending_here [OF ch(2)] by simp_all
    note l = node.IH(1) [OF True ch(1)]
    note r = node.IH(2) [OF True ch(2)]
    have lv: "lvals ops t i lo hi = leaves t i lo hi"
      using True l r by (subst leaves.simps) (simp add: lvals_clean [OF np] base_def)
    have gd: "good ops t i lo hi \<longleftrightarrow> aggregates_ok ops t i lo hi"
      using True l r cp
      by (subst aggregates_ok.simps) (simp add: good_node [OF True] eff_clean)
    show ?thesis using lv gd by simp
  qed
qed

lemma push_all_ok:
  "fits N i lo hi \<Longrightarrow> 0 \<le> lo \<Longrightarrow> lo \<le> hi \<Longrightarrow> sized N t \<Longrightarrow>
   \<exists>t'. push_all ops i lo hi t = Inr t' \<and> sized N t' \<and> len t' = len t \<and>
      frame (desc i) t t' \<and> no_pending t' i lo hi \<and>
      (compose_ok ops \<longrightarrow> holds ops t i lo hi A \<longrightarrow>
         holds ops t' i lo hi A \<and>
         (algebra_ok ops \<longrightarrow> good ops t i lo hi \<longrightarrow> good ops t' i lo hi))"
proof (induction i lo hi arbitrary: t rule: span_induct)
  case (node i lo hi)
  define t1 where "t1 = push ops i (dl t i) lo hi t"
  note le = node.prems(3)
  note rs = resolve_run [OF node.prems(4) node.prems(1) le t1_def]
  note rl = resolve_logic [OF _ node.prems(4) node.prems(1) le _ t1_def]
  have i0: "0 \<le> i" using fits_here [OF node.prems(1)] by simp
  show ?case
  proof (cases "lo < hi")
    case False
    have run: "push_all ops i lo hi t = Inr t1"
      using False rs(1,2) by (subst push_all.simps) simp
    have np: "no_pending t1 i lo hi" using False rs(6) by (subst no_pending.simps) simp
    have logic: "holds ops t1 i lo hi A \<and>
        (algebra_ok ops \<longrightarrow> good ops t i lo hi \<longrightarrow> good ops t1 i lo hi)"
      if "compose_ok ops" "holds ops t i lo hi A"
      using rl(1) [OF that] by (simp add: good_leaf [OF False])
    show ?thesis using run rs(3-5) np logic by blast
  next
    case True
    let ?m = "(lo + hi) div 2"
    have m: "lo \<le> ?m" "?m < hi" "?m + 1 \<le> hi" "0 \<le> ?m + 1"
      using True node.prems(2) by auto
    note ch = fits_children [OF node.prems(1) True]
    obtain t2 where t2: "push_all ops (2*i + 1) lo ?m t1 = Inr t2"
      "sized N t2" "len t2 = len t1" "frame (desc (2*i + 1)) t1 t2" "no_pending t2 (2*i + 1) lo ?m"
      "compose_ok ops \<longrightarrow> holds ops t1 (2*i + 1) lo ?m A \<longrightarrow>
         holds ops t2 (2*i + 1) lo ?m A \<and>
         (algebra_ok ops \<longrightarrow> good ops t1 (2*i + 1) lo ?m \<longrightarrow> good ops t2 (2*i + 1) lo ?m)"
      using node.IH(1) [OF True conjunct1 [OF ch] node.prems(2) m(1) rs(3)] by blast
    obtain t3 where t3: "push_all ops (2*i + 2) (?m + 1) hi t2 = Inr t3"
      "sized N t3" "len t3 = len t2" "frame (desc (2*i + 2)) t2 t3"
      "no_pending t3 (2*i + 2) (?m + 1) hi"
      "compose_ok ops \<longrightarrow> holds ops t2 (2*i + 2) (?m + 1) hi A \<longrightarrow>
         holds ops t3 (2*i + 2) (?m + 1) hi A \<and>
         (algebra_ok ops \<longrightarrow> good ops t2 (2*i + 2) (?m + 1) hi \<longrightarrow> good ops t3 (2*i + 2) (?m + 1) hi)"
      using node.IH(2) [OF True conjunct2 [OF ch] m(4,3) t2(2)] by blast
    have run: "push_all ops i lo hi t = Inr t3"
      using True rs(1,2) t2(1) t3(1) by (subst push_all.simps) simp
    have np3: "\<not> pd t3 i"
      using frame_parent(3) [OF i0 t2(4)] frame_parent(3) [OF i0 t3(4)] rs(6) by simp
    have "no_pending t3 (2*i + 1) lo ?m"
      using frame_sibling(2) [OF i0 t3(4), of "2*i + 1"] t2(5) i0
      by (subst no_pending_cong [of "2*i + 1" t2]) auto
    then have np: "no_pending t3 i lo hi"
      using True np3 t3(5) by (subst no_pending.simps) simp
    have f12: "frame (desc i) t1 t2" using frame_up [OF t2(4), of i] by simp
    have f23: "frame (desc i) t2 t3" using frame_up [OF t3(4), of i] by simp
    have f: "frame (desc i) t t3" by (rule frame_trans [OF rs(5) frame_trans [OF f12 f23]])
    have l: "len t3 = len t" using rs(4) t2(3) t3(3) by simp
    have logic: "holds ops t3 i lo hi A \<and>
        (algebra_ok ops \<longrightarrow> good ops t i lo hi \<longrightarrow> good ops t3 i lo hi)"
      if c: "compose_ok ops" and h: "holds ops t i lo hi A"
    proof -
      note h0 = rl(1) [OF c h]
      have h1: "holds ops t1 (2*i + 1) lo ?m A" "holds ops t1 (2*i + 2) (?m + 1) hi A"
        using h0 by (simp_all add: holds_node [OF True rs(6)])
      have l2: "holds ops t2 (2*i + 1) lo ?m A" using t2(6) c h1(1) by simp
      have h2: "holds ops t2 (2*i + 2) (?m + 1) hi A"
        using sibling_keep(2) [OF i0 t2(4), of "2*i + 2"] h1(2) by simp
      then have r3: "holds ops t3 (2*i + 2) (?m + 1) hi A" using t3(6) c by simp
      note ra = reassemble [OF i0 True rs(6) t2(4) t3(4) l2 r3]
      have g: "good ops t3 i lo hi" if al: "algebra_ok ops" and gd: "good ops t i lo hi"
      proof -
        have g0: "good ops t1 i lo hi" using rl(2) [OF c h al gd] by simp
        then have g1: "good ops t1 (2*i + 1) lo ?m" "good ops t1 (2*i + 2) (?m + 1) hi"
          by (simp_all add: good_node [OF True])
        have g2: "good ops t2 (2*i + 1) lo ?m" using t2(6) c al h1(1) g1(1) by simp
        have "good ops t2 (2*i + 2) (?m + 1) hi"
          using sibling_keep(3) [OF i0 t2(4), of "2*i + 2"] g1(2) by simp
        then have g3: "good ops t3 (2*i + 2) (?m + 1) hi" using t3(6) c al h2 by simp
        show ?thesis
          by (rule reassemble_good [OF al i0 True rs(6) g0 h0 t2(4) t3(4) g2 l2 g3 r3])
      qed
      show ?thesis using ra(3) g by blast
    qed
    show ?thesis using run t3(2) l f np logic by blast
  qed
qed

subsection \<open>The order of the two recursive calls of a query\<close>

lemma desc_cases:
  assumes "j \<in> desc i"
  shows "j = i \<or> j \<in> desc (2*i + 1) \<or> j \<in> desc (2*i + 2)"
proof -
  from assms obtain k :: nat where a: "(i + 1) * 2 ^ k \<le> j + 1" and b: "j + 1 < (i + 2) * 2 ^ k"
    unfolding desc_def by blast
  show ?thesis
  proof (cases k)
    case 0
    then show ?thesis using a b by simp
  next
    case (Suc m)
    define P :: int where "P = 2 ^ m"
    have a': "(2*i + 2) * P \<le> j + 1" using a unfolding Suc P_def by (simp add: algebra_simps)
    have b': "j + 1 < (2*i + 4) * P" using b unfolding Suc P_def by (simp add: algebra_simps)
    show ?thesis
    proof (cases "j + 1 < (2*i + 3) * P")
      case True
      have "(2*i + 1 + 1) * 2 ^ m \<le> j + 1 \<and> j + 1 < (2*i + 1 + 2) * 2 ^ m"
        using a' True by (simp add: P_def algebra_simps)
      then have "j \<in> desc (2*i + 1)" unfolding desc_def by blast
      then show ?thesis by simp
    next
      case False
      have "(2*i + 2 + 1) * 2 ^ m \<le> j + 1 \<and> j + 1 < (2*i + 2 + 2) * 2 ^ m"
        using b' False by (simp add: P_def algebra_simps)
      then have "j \<in> desc (2*i + 2)" unfolding desc_def by blast
      then show ?thesis by simp
    qed
  qed
qed

lemma state_eqI:
  fixes t u :: "'a segment_tree"
  assumes "sized N t" "sized N u" "len t = len u"
    and "\<And>j. 0 \<le> j \<Longrightarrow> j < N \<Longrightarrow> val t j = val u j \<and> dl t j = dl u j \<and> pd t j = pd u j"
  shows "t = u"
proof -
  have n: "length (value t) = nat N" "length (delta t) = nat N" "length (pending t) = nat N"
    "length (value u) = nat N" "length (delta u) = nat N" "length (pending u) = nat N"
    using assms(1,2) by (auto simp: sized_def)
  have at: "val t (int k) = val u (int k) \<and> dl t (int k) = dl u (int k) \<and> pd t (int k) = pd u (int k)"
    if "k < nat N" for k
    using that by (intro assms(4)) auto
  have "value t = value u" using n at by (intro nth_equalityI) (auto simp: val_def)
  moreover have "delta t = delta u" using n at by (intro nth_equalityI) (auto simp: dl_def)
  moreover have "pending t = pending u" using n at by (intro nth_equalityI) (auto simp: pd_def)
  ultimately show ?thesis using assms(3) by simp
qed

lemma push_agree:
  assumes "sized N t" "sized N u" "fits N i lo hi" "lo \<le> hi"
    "agree_val (desc i) t u" "agree_lazy (desc i) t u"
  shows "agree_val (desc i) (push ops i (dl t i) lo hi t) (push ops i (dl u i) lo hi u)"
    and "agree_lazy (desc i) (push ops i (dl t i) lo hi t) (push ops i (dl u i) lo hi u)"
proof -
  have b: "0 \<le> i" "i < N" "pd t i \<and> lo \<noteq> hi \<longrightarrow> 2*i + 2 < N" "pd u i \<and> lo \<noteq> hi \<longrightarrow> 2*i + 2 < N"
    using fits_here [OF assms(3)] fits_bound [OF assms(3)] assms(4) by auto
  have here: "val u i = val t i" "dl u i = dl t i" "pd u i = pd t i"
    using assms(5,6) desc_self [of i] by (auto simp: agree_val_def agree_lazy_def)
  have pt: "val u j = val t j \<and> dl u j = dl t j \<and> pd u j = pd t j \<and> 0 \<le> j" if "j \<in> desc i" for j
    using that assms(5,6) desc_nonneg [OF b(1) that] by (auto simp: agree_val_def agree_lazy_def)
  show "agree_val (desc i) (push ops i (dl t i) lo hi t) (push ops i (dl u i) lo hi u)"
    unfolding agree_val_def
  proof
    fix j assume j: "j \<in> desc i"
    show "val (push ops i (dl u i) lo hi u) j = val (push ops i (dl t i) lo hi t) j"
      using pt [OF j] here
      by (simp add: val_push [OF assms(1) b(1,2)] val_push [OF assms(2) b(1,2)])
  qed
  show "agree_lazy (desc i) (push ops i (dl t i) lo hi t) (push ops i (dl u i) lo hi u)"
    unfolding agree_lazy_def
  proof
    fix j assume j: "j \<in> desc i"
    show "dl (push ops i (dl u i) lo hi u) j = dl (push ops i (dl t i) lo hi t) j \<and>
        pd (push ops i (dl u i) lo hi u) j = pd (push ops i (dl t i) lo hi t) j"
      using pt [OF j] here
      by (auto simp: dl_push [OF assms(1) b(1,2,3)] dl_push [OF assms(2) b(1,2,4)]
          pd_push [OF assms(1) b(1,2,3)] pd_push [OF assms(2) b(1,2,4)])
  qed
qed

lemma query_rec_frame:
  assumes "fits N i lo hi" "0 \<le> lo" "lo \<le> ql" "ql \<le> qh" "qh \<le> hi" "sized N t"
    and "query_rec ops i lo hi ql qh t = Some (Inr (r, t'))"
  shows "sized N t'" "frame (desc i) t t'"
proof -
  obtain r0 t0 where o: "query_rec ops i lo hi ql qh t = Some (Inr (r0, t0))" "sized N t0"
    "frame (desc i) t t0"
    using query_rec_ok [OF assms(1-6), of ops] by blast
  have "t0 = t'" using o(1) assms(7) by simp
  then show "sized N t'" "frame (desc i) t t'" using o(2,3) by simp_all
qed

lemma agree_node:
  assumes "val u i = val t i" "dl u i = dl t i" "pd u i = pd t i"
    "agree_val (desc (2*i + 1)) t u" "agree_lazy (desc (2*i + 1)) t u"
    "agree_val (desc (2*i + 2)) t u" "agree_lazy (desc (2*i + 2)) t u"
  shows "agree_val (desc i) t u" "agree_lazy (desc i) t u"
proof -
  have "val u j = val t j \<and> dl u j = dl t j \<and> pd u j = pd t j" if "j \<in> desc i" for j
    using desc_cases [OF that] assms by (elim disjE) (simp_all add: agree_val_def agree_lazy_def)
  then show "agree_val (desc i) t u" "agree_lazy (desc i) t u"
    by (simp_all add: agree_val_def agree_lazy_def)
qed

lemma step_agree:
  assumes "0 \<le> i" "c = 2*i + 1 \<and> s = 2*i + 2 \<or> c = 2*i + 2 \<and> s = 2*i + 1"
    "frame (desc c) t1 t2" "frame (desc c) u1 u2"
    "agree_val (desc i) t1 u1" "agree_lazy (desc i) t1 u1"
  shows "agree_val (desc s) t2 u2" "agree_lazy (desc s) t2 u2"
    "val u2 i = val t2 i" "dl u2 i = dl t2 i" "pd u2 i = pd t2 i"
proof -
  have cc: "c = 2*i + 1 \<or> c = 2*i + 2" and sc: "s = 2*i + 1 \<or> s = 2*i + 2"
    using assms(2) by auto
  note ft = frame_sibling [OF assms(1,3,2)]
  note fu = frame_sibling [OF assms(1,4,2)]
  have sub: "j \<in> desc i" if "j \<in> desc s" for j using desc_child [OF sc that] .
  show "agree_val (desc s) t2 u2"
    using ft(1) fu(1) assms(5) sub by (auto simp: agree_val_def)
  show "agree_lazy (desc s) t2 u2"
    using ft(2) fu(2) assms(6) sub by (auto simp: agree_lazy_def)
  show "val u2 i = val t2 i" "dl u2 i = dl t2 i" "pd u2 i = pd t2 i"
    using frame_parent [OF assms(1,3) cc] frame_parent [OF assms(1,4) cc] assms(5,6) desc_self [of i]
    by (auto simp: agree_val_def agree_lazy_def)
qed

lemma query_rec_local:
  "fits N i lo hi \<Longrightarrow> 0 \<le> lo \<Longrightarrow> lo \<le> ql \<Longrightarrow> ql \<le> qh \<Longrightarrow> qh \<le> hi \<Longrightarrow>
   sized N t \<Longrightarrow> sized N u \<Longrightarrow> agree_val (desc i) t u \<Longrightarrow> agree_lazy (desc i) t u \<Longrightarrow>
   \<exists>r t' u'. query_rec ops i lo hi ql qh t = Some (Inr (r, t')) \<and>
      query_rec ops i lo hi ql qh u = Some (Inr (r, u')) \<and>
      agree_val (desc i) t' u' \<and> agree_lazy (desc i) t' u'"
proof (induction i lo hi arbitrary: t u ql qh rule: span_induct)
  case (node i lo hi)
  define t1 where "t1 = push ops i (dl t i) lo hi t"
  define u1 where "u1 = push ops i (dl u i) lo hi u"
  have le: "lo \<le> hi" using node.prems by linarith
  note rt = resolve_run [OF node.prems(6) node.prems(1) le t1_def]
  note ru = resolve_run [OF node.prems(7) node.prems(1) le u1_def]
  have i0: "0 \<le> i" using fits_here [OF node.prems(1)] by simp
  have ag1: "agree_val (desc i) t1 u1" "agree_lazy (desc i) t1 u1"
    unfolding t1_def u1_def
    by (rule push_agree [OF node.prems(6,7,1) le node.prems(8,9)])+
  have here1: "val u1 i = val t1 i" using ag1(1) desc_self [of i] by (simp add: agree_val_def)
  show ?case
  proof (cases "lo = ql \<and> hi = qh")
    case True
    have "query_rec ops i lo hi ql qh t = Some (Inr (val t1 i, t1))"
      using True rt(1,2,7) by (subst query_rec.simps) simp
    moreover have "query_rec ops i lo hi ql qh u = Some (Inr (val t1 i, u1))"
      using True ru(1,2,7) here1 by (subst query_rec.simps) simp
    ultimately show ?thesis using ag1 by blast
  next
    case False
    then have lt: "lo < hi" using node.prems by linarith
    let ?m = "(lo + hi) div 2"
    have m: "lo \<le> ?m" "?m < hi" "?m + 1 \<le> hi" "0 \<le> ?m + 1" "cdiv (lo + hi) 2 = ?m"
      using lt node.prems(2) by (auto simp: cdiv_nonneg)
    note ch = fits_children [OF node.prems(1) lt]
    have sub1: "agree_val (desc (2*i + 1)) t1 u1" "agree_lazy (desc (2*i + 1)) t1 u1"
      "agree_val (desc (2*i + 2)) t1 u1" "agree_lazy (desc (2*i + 2)) t1 u1"
      using ag1 desc_left [of _ i] desc_right [of _ i] by (auto simp: agree_val_def agree_lazy_def)
    have sibl: "2*i + 1 = 2*i + 1 \<and> 2*i + 2 = 2*i + 2 \<or> 2*i + 1 = 2*i + 2 \<and> 2*i + 2 = 2*i + 1"
      and sibr: "2*i + 2 = 2*i + 1 \<and> 2*i + 1 = 2*i + 2 \<or> 2*i + 2 = 2*i + 2 \<and> 2*i + 1 = 2*i + 1"
      by simp_all
    consider (both) "ql \<le> ?m" "?m < qh" | (left) "ql \<le> ?m" "qh \<le> ?m" | (right) "?m < ql"
      by linarith
    then show ?thesis
    proof cases
      case both
      have mm: "min qh ?m = ?m" "max ql (?m + 1) = ?m + 1" using both by auto
      have qh': "?m + 1 \<le> qh" using both(2) by simp
      obtain a t2 u2 where l: "query_rec ops (2*i + 1) lo ?m ql ?m t1 = Some (Inr (a, t2))"
        "query_rec ops (2*i + 1) lo ?m ql ?m u1 = Some (Inr (a, u2))"
        "agree_val (desc (2*i + 1)) t2 u2" "agree_lazy (desc (2*i + 1)) t2 u2"
        using node.IH(1) [OF lt conjunct1 [OF ch] node.prems(2,3) both(1) order_refl rt(3) ru(3)
            sub1(1,2)] by blast
      note ft = query_rec_frame [OF conjunct1 [OF ch] node.prems(2,3) both(1) order_refl rt(3) l(1)]
      note fu = query_rec_frame [OF conjunct1 [OF ch] node.prems(2,3) both(1) order_refl ru(3) l(2)]
      note st = step_agree [OF i0 sibl ft(2) fu(2) ag1]
      have ag2: "agree_val (desc i) t2 u2" "agree_lazy (desc i) t2 u2"
        by (rule agree_node [OF st(3,4,5) l(3,4) st(1,2)])+
      obtain b t3 u3 where r: "query_rec ops (2*i + 2) (?m + 1) hi (?m + 1) qh t2 = Some (Inr (b, t3))"
        "query_rec ops (2*i + 2) (?m + 1) hi (?m + 1) qh u2 = Some (Inr (b, u3))"
        "agree_val (desc (2*i + 2)) t3 u3" "agree_lazy (desc (2*i + 2)) t3 u3"
        using st(1,2)
          node.IH(2) [OF lt conjunct2 [OF ch] m(4) order_refl qh' node.prems(5) ft(1) fu(1)]
        by blast
      note ft3 = query_rec_frame(2) [OF conjunct2 [OF ch] m(4) order_refl qh' node.prems(5) ft(1) r(1)]
      note fu3 = query_rec_frame(2) [OF conjunct2 [OF ch] m(4) order_refl qh' node.prems(5) fu(1) r(2)]
      note st3 = step_agree [OF i0 sibr ft3 fu3 ag2]
      have ag3: "agree_val (desc i) t3 u3" "agree_lazy (desc i) t3 u3"
        by (rule agree_node [OF st3(3,4,5) st3(1,2) r(3,4)])+
      have "query_rec ops i lo hi ql qh t = Some (Inr (join_values ops a b, t3))"
        using False both rt(1,2) l(1) r(1)
        by (subst query_rec.simps) (auto simp: twice m(5) mm)
      moreover have "query_rec ops i lo hi ql qh u = Some (Inr (join_values ops a b, u3))"
        using False both ru(1,2) l(2) r(2)
        by (subst query_rec.simps) (auto simp: twice m(5) mm)
      ultimately show ?thesis using ag3 by blast
    next
      case left
      have mm: "min qh ?m = qh" using left by auto
      obtain a t2 u2 where l: "query_rec ops (2*i + 1) lo ?m ql qh t1 = Some (Inr (a, t2))"
        "query_rec ops (2*i + 1) lo ?m ql qh u1 = Some (Inr (a, u2))"
        "agree_val (desc (2*i + 1)) t2 u2" "agree_lazy (desc (2*i + 1)) t2 u2"
        using node.IH(1) [OF lt conjunct1 [OF ch] node.prems(2,3,4) left(2) rt(3) ru(3)
            sub1(1,2)] by blast
      note ft = query_rec_frame(2) [OF conjunct1 [OF ch] node.prems(2,3,4) left(2) rt(3) l(1)]
      note fu = query_rec_frame(2) [OF conjunct1 [OF ch] node.prems(2,3,4) left(2) ru(3) l(2)]
      note st = step_agree [OF i0 sibl ft fu ag1]
      have ag2: "agree_val (desc i) t2 u2" "agree_lazy (desc i) t2 u2"
        by (rule agree_node [OF st(3,4,5) l(3,4) st(1,2)])+
      have "query_rec ops i lo hi ql qh t = Some (Inr (a, t2))"
        using False left rt(1,2) l(1)
        by (subst query_rec.simps) (auto simp: twice m(5) mm)
      moreover have "query_rec ops i lo hi ql qh u = Some (Inr (a, u2))"
        using False left ru(1,2) l(2)
        by (subst query_rec.simps) (auto simp: twice m(5) mm)
      ultimately show ?thesis using ag2 by blast
    next
      case right
      have mm: "max ql (?m + 1) = ql" "\<not> ql \<le> ?m" using right by auto
      have ql': "?m + 1 \<le> ql" using right by simp
      obtain b t2 u2 where r: "query_rec ops (2*i + 2) (?m + 1) hi ql qh t1 = Some (Inr (b, t2))"
        "query_rec ops (2*i + 2) (?m + 1) hi ql qh u1 = Some (Inr (b, u2))"
        "agree_val (desc (2*i + 2)) t2 u2" "agree_lazy (desc (2*i + 2)) t2 u2"
        using node.IH(2) [OF lt conjunct2 [OF ch] m(4) ql' node.prems(4,5) rt(3) ru(3)
            sub1(3,4)] by blast
      note ft = query_rec_frame(2) [OF conjunct2 [OF ch] m(4) ql' node.prems(4,5) rt(3) r(1)]
      note fu = query_rec_frame(2) [OF conjunct2 [OF ch] m(4) ql' node.prems(4,5) ru(3) r(2)]
      note st = step_agree [OF i0 sibr ft fu ag1]
      have ag2: "agree_val (desc i) t2 u2" "agree_lazy (desc i) t2 u2"
        by (rule agree_node [OF st(3,4,5) st(1,2) r(3,4)])+
      have "query_rec ops i lo hi ql qh t = Some (Inr (b, t2))"
        using False right rt(1,2) r(1)
        by (subst query_rec.simps) (auto simp: twice m(5) mm)
      moreover have "query_rec ops i lo hi ql qh u = Some (Inr (b, u2))"
        using False right ru(1,2) r(2)
        by (subst query_rec.simps) (auto simp: twice m(5) mm)
      ultimately show ?thesis using ag2 by blast
    qed
  qed
qed

lemma frame_agree_outside:
  assumes "frame X t t'" "0 \<le> j" "j \<notin> X"
  shows "val t' j = val t j" "dl t' j = dl t j" "pd t' j = pd t j"
  using assms by (auto simp: frame_def agree_val_def agree_lazy_def)

lemma query_order:
  "fits N i lo hi \<Longrightarrow> 0 \<le> lo \<Longrightarrow> lo \<le> ql \<Longrightarrow> ql \<le> qh \<Longrightarrow> qh \<le> hi \<Longrightarrow> sized N t \<Longrightarrow>
   query_rec_rl ops i lo hi ql qh t = query_rec ops i lo hi ql qh t"
proof (induction i lo hi arbitrary: t ql qh rule: span_induct)
  case (node i lo hi)
  define t1 where "t1 = push ops i (dl t i) lo hi t"
  have le: "lo \<le> hi" using node.prems by linarith
  note rs = resolve_run [OF node.prems(6) node.prems(1) le t1_def]
  have i0: "0 \<le> i" using fits_here [OF node.prems(1)] by simp
  show ?case
  proof (cases "lo = ql \<and> hi = qh")
    case True
    then show ?thesis
      using rs(1,2) by (subst query_rec_rl.simps, subst query_rec.simps) simp
  next
    case False
    then have lt: "lo < hi" using node.prems by linarith
    let ?m = "(lo + hi) div 2"
    let ?l = "2*i + 1" and ?r = "2*i + 2"
    have m: "lo \<le> ?m" "?m < hi" "?m + 1 \<le> hi" "0 \<le> ?m + 1" "cdiv (lo + hi) 2 = ?m"
      using lt node.prems(2) by (auto simp: cdiv_nonneg)
    note ch = fits_children [OF node.prems(1) lt]
    note fl = conjunct1 [OF ch] and fr = conjunct2 [OF ch]
    consider (both) "ql \<le> ?m" "?m < qh" | (left) "ql \<le> ?m" "qh \<le> ?m" | (right) "?m < ql"
      by linarith
    then show ?thesis
    proof cases
      case left
      have mm: "min qh ?m = qh" using left by auto
      have "query_rec_rl ops ?l lo ?m ql qh t1 = query_rec ops ?l lo ?m ql qh t1"
        by (rule node.IH(1) [OF lt fl node.prems(2,3,4) left(2) rs(3)])
      then show ?thesis
        using False left rs(1,2)
        by (subst query_rec_rl.simps, subst query_rec.simps) (auto simp: twice m(5) mm)
    next
      case right
      have mm: "max ql (?m + 1) = ql" "\<not> ql \<le> ?m" using right by auto
      have ql': "?m + 1 \<le> ql" using right by simp
      have "query_rec_rl ops ?r (?m + 1) hi ql qh t1 = query_rec ops ?r (?m + 1) hi ql qh t1"
        by (rule node.IH(2) [OF lt fr m(4) ql' node.prems(4,5) rs(3)])
      then show ?thesis
        using False right rs(1,2)
        by (subst query_rec_rl.simps, subst query_rec.simps) (auto simp: twice m(5) mm)
    next
      case both
      have mm: "min qh ?m = ?m" "max ql (?m + 1) = ?m + 1" using both by auto
      have qh': "?m + 1 \<le> qh" using both(2) by simp
      note vl = fl node.prems(2,3) both(1) order_refl
      note vr = fr m(4) order_refl qh' node.prems(5)
      have sibl: "?l = 2*i + 1 \<and> ?r = 2*i + 2 \<or> ?l = 2*i + 2 \<and> ?r = 2*i + 1"
        and sibr: "?r = 2*i + 1 \<and> ?l = 2*i + 2 \<or> ?r = 2*i + 2 \<and> ?l = 2*i + 1"
        by simp_all
      \<comment> \<open>the right call on the resolved state, then the left call\<close>
      obtain b tR where R: "query_rec ops ?r (?m + 1) hi (?m + 1) qh t1 = Some (Inr (b, tR))"
        "sized N tR" "len tR = len t1" "frame (desc ?r) t1 tR"
        using query_rec_ok [OF vr rs(3), of ops] by blast
      note agl = frame_sibling [OF i0 R(4) sibr]
      obtain a tL tRL where L: "query_rec ops ?l lo ?m ql ?m t1 = Some (Inr (a, tL))"
        "query_rec ops ?l lo ?m ql ?m tR = Some (Inr (a, tRL))"
        "agree_val (desc ?l) tL tRL" "agree_lazy (desc ?l) tL tRL"
        using query_rec_local [OF vl rs(3) R(2) agl, of ops] by blast
      note fL = query_rec_frame [OF vl rs(3) L(1)]
      note fRL = query_rec_frame [OF vl R(2) L(2)]
      \<comment> \<open>the left call on the resolved state, then the right call\<close>
      note agr = frame_sibling [OF i0 fL(2) sibl]
      obtain b' tR' tLR where R': "query_rec ops ?r (?m + 1) hi (?m + 1) qh t1 = Some (Inr (b', tR'))"
        "query_rec ops ?r (?m + 1) hi (?m + 1) qh tL = Some (Inr (b', tLR))"
        "agree_val (desc ?r) tR' tLR" "agree_lazy (desc ?r) tR' tLR"
        using query_rec_local [OF vr rs(3) fL(1) agr, of ops] by blast
      have same: "b' = b" "tR' = tR" using R(1) R'(1) by simp_all
      note fLR = query_rec_frame [OF vr fL(1) R'(2)]
      \<comment> \<open>both orders end in the same state\<close>
      have eq: "tRL = tLR"
      proof (rule state_eqI [OF fRL(1) fLR(1)])
        obtain r1 s1 where "query_rec ops ?l lo ?m ql ?m tR = Some (Inr (r1, s1))" "len s1 = len tR"
          using query_rec_ok [OF vl R(2), of ops] by blast
        then have l1: "len tRL = len tR" using L(2) by simp
        obtain r2 s2 where "query_rec ops ?l lo ?m ql ?m t1 = Some (Inr (r2, s2))" "len s2 = len t1"
          using query_rec_ok [OF vl rs(3), of ops] by blast
        then have l2: "len tL = len t1" using L(1) by simp
        obtain r3 s3 where "query_rec ops ?r (?m + 1) hi (?m + 1) qh tL = Some (Inr (r3, s3))"
          "len s3 = len tL"
          using query_rec_ok [OF vr fL(1), of ops] by blast
        then have l3: "len tLR = len tL" using R'(2) by simp
        show "len tRL = len tLR" using l1 l2 l3 R(3) by simp
      next
        fix j :: int
        assume j: "0 \<le> j" "j < N"
        consider (inl) "j \<in> desc ?l" | (inr) "j \<in> desc ?r" | (out) "j \<notin> desc ?l" "j \<notin> desc ?r"
          by blast
        then show "val tRL j = val tLR j \<and> dl tRL j = dl tLR j \<and> pd tRL j = pd tLR j"
        proof cases
          case inl
          have nr: "j \<notin> desc ?r" using desc_disjoint [OF i0 inl] by blast
          have "val tRL j = val tL j \<and> dl tRL j = dl tL j \<and> pd tRL j = pd tL j"
            using L(3,4) inl by (simp add: agree_val_def agree_lazy_def)
          then show ?thesis using frame_agree_outside [OF fLR(2) j(1) nr] by simp
        next
          case inr
          have nl: "j \<notin> desc ?l" using desc_disjoint [OF i0 _ inr] by blast
          have "val tLR j = val tR j \<and> dl tLR j = dl tR j \<and> pd tLR j = pd tR j"
            using R'(3,4) inr same(2) by (simp add: agree_val_def agree_lazy_def)
          then show ?thesis using frame_agree_outside [OF fRL(2) j(1) nl] by simp
        next
          case out
          show ?thesis
            using frame_agree_outside [OF fRL(2) j(1) out(1)] frame_agree_outside [OF R(4) j(1) out(2)]
              frame_agree_outside [OF fLR(2) j(1) out(2)] frame_agree_outside [OF fL(2) j(1) out(1)]
            by simp
        qed
      qed
      have e1: "query_rec_rl ops ?r (?m + 1) hi (?m + 1) qh t1 = Some (Inr (b, tR))"
        using node.IH(2) [OF lt vr rs(3)] R(1) by simp
      have e2: "query_rec_rl ops ?l lo ?m ql ?m tR = Some (Inr (a, tRL))"
        using node.IH(1) [OF lt vl R(2)] L(2) by simp
      have rl: "query_rec_rl ops i lo hi ql qh t = Some (Inr (join_values ops a b, tRL))"
        using False both rs(1,2) e1 e2
        by (subst query_rec_rl.simps) (auto simp: twice m(5) mm)
      have lr: "query_rec ops i lo hi ql qh t = Some (Inr (join_values ops a b, tLR))"
        using False both rs(1,2) L(1) R'(2) same(1)
        by (subst query_rec.simps) (auto simp: twice m(5) mm)
      show ?thesis using rl lr eq by simp
    qed
  qed
qed

section \<open>The claims\<close>

text \<open>
  Claim C1. With the code's default functions (minimum, "set"), after construction from
  a sequence (or from a size and a fill value) and any history of calls with in-range
  arguments, \<^verbatim>\<open>at(i)\<close> returns the initial value at \<open>i\<close> with the deltas of the updates
  whose range contains \<open>i\<close> applied in call order by \<^verbatim>\<open>join_value_with_delta\<close>.
\<close>

theorem at_returns_logical_value:
  fixes arr :: "('a::{linorder,zero}) list"
  assumes "\<forall>c\<in>set cs. valid_call (int (length arr)) c" "0 \<le> i" "i < int (length arr)"
  shows "(\<exists>t r t'. reach default_ops arr cs = Some (Inr t) \<and>
            at default_ops t i = Some (Inr (r, t')) \<and>
            r = logical default_ops cs i (arr ! nat i)) \<and>
         (\<exists>t0 t r t'. segment_tree_fill default_ops (int (length arr)) v = Some (Inr t0) \<and>
            run default_ops cs t0 = Some (Inr t) \<and>
            at default_ops t i = Some (Inr (r, t')) \<and>
            r = logical default_ops cs i v)"
proof
  have ne: "arr \<noteq> []" using assms(2,3) by auto
  show "\<exists>t r t'. reach default_ops arr cs = Some (Inr t) \<and>
      at default_ops t i = Some (Inr (r, t')) \<and> r = logical default_ops cs i (arr ! nat i)"
    by (rule at_reach [OF default_compose ne assms])
  let ?arr' = "replicate (length arr) v"
  have ne': "?arr' \<noteq> []" using ne by simp
  have n: "1 \<le> int (length arr)" using ne by (cases arr) auto
  have v': "\<forall>c\<in>set cs. valid_call (int (length ?arr')) c" using assms(1) by simp
  have i': "i < int (length ?arr')" using assms(3) by simp
  obtain t r t' where t: "reach default_ops ?arr' cs = Some (Inr t)"
    "at default_ops t i = Some (Inr (r, t'))" "r = logical default_ops cs i (?arr' ! nat i)"
    using at_reach [OF default_compose ne' v' assms(2) i'] by blast
  obtain t0 where t0: "segment_tree_iter default_ops ?arr' = Some (Inr t0)"
    using segment_tree_iter_ok [OF ne', of default_ops] by blast
  have f: "segment_tree_fill default_ops (int (length arr)) v = Some (Inr t0)"
    using segment_tree_fill_iter [OF n, of default_ops v] t0 by simp
  have r: "run default_ops cs t0 = Some (Inr t)" using t(1) t0 by (simp add: reach_def)
  have "?arr' ! nat i = v" using assms(2,3) by simp
  then show "\<exists>t0 t r t'. segment_tree_fill default_ops (int (length arr)) v = Some (Inr t0) \<and>
      run default_ops cs t0 = Some (Inr t) \<and> at default_ops t i = Some (Inr (r, t')) \<and>
      r = logical default_ops cs i v"
    using f r t(2,3) by auto
qed

theorem at_returns_logical_value_witness:
  "(\<exists>t r t'. reach default_ops [6, 2::int] [UpdateRange 0 1 5, UpdatePoint 1 3] = Some (Inr t) \<and>
      at default_ops t 1 = Some (Inr (r, t')) \<and>
      r = logical default_ops [UpdateRange 0 1 5, UpdatePoint 1 3] 1 ([6, 2] ! nat 1)) \<and>
   (\<exists>t0 t r t'. segment_tree_fill default_ops (int (length [6, 2::int])) (7::int) = Some (Inr t0) \<and>
      run default_ops [UpdateRange 0 1 5, UpdatePoint 1 3] t0 = Some (Inr t) \<and>
      at default_ops t 1 = Some (Inr (r, t')) \<and>
      r = logical default_ops [UpdateRange 0 1 5, UpdatePoint 1 3] 1 7)"
  by (rule at_returns_logical_value [of "[UpdateRange 0 1 5, UpdatePoint 1 3]" "[6, 2]" 1 7])
    simp_all

text \<open>
  Claim C2 (as stated it fails: the code validates no argument and has no OutOfRange
  error). In the state reached from \<open>[6, 2]\<close> by \<^verbatim>\<open>update(0, 1, 5)\<close>, the call
  \<^verbatim>\<open>update(1, 0, 9)\<close> with \<open>lo > hi\<close> returns normally and has rewritten two aggregates
  and cleared two pending flags.
\<close>

theorem out_of_range_counterexample:
  "reach default_ops [6, 2::int] [UpdateRange 0 1 5] =
     Some (Inr \<lparr>len = 2, value = [5, 6, 2, 0, 0, 0, 0, 0], delta = [0, 5, 5, 0, 0, 0, 0, 0],
                pending = [False, True, True, False, False, False, False, False]\<rparr>) \<and>
   update_range default_ops
     \<lparr>len = 2, value = [5, 6, 2, 0, 0, 0, 0, 0], delta = [0, 5, 5, 0, 0, 0, 0, 0],
      pending = [False, True, True, False, False, False, False, False]\<rparr> 1 0 9 =
     Some (Inr \<lparr>len = 2, value = [5, 5, 5, 0, 0, 0, 0, 0], delta = [0, 5, 5, 0, 0, 0, 0, 0],
                pending = [False, False, False, False, False, False, False, False]\<rparr>)"
  apply (simp add: reach_def segment_tree_iter_def update_range_def
      build_iter.simps update_rec.simps update_delta_def
      bindO_def bindE_def vector_get_def vector_set_def cdiv_def default_ops_def)
  apply (simp add: eval_nat_numeral)
  done

text \<open>
  Claim C2, amended. In every state reached by calls with in-range arguments,
  \<^verbatim>\<open>update(lo, hi, d)\<close> returns normally for all integers \<open>lo\<close>, \<open>hi\<close>. When the target
  range misses \<open>[0, n-1]\<close> altogether (\<open>lo > n - 1\<close> or \<open>hi < 0\<close>, as in
  \<^verbatim>\<open>update(n, 0, d)\<close>) it leaves the entire state unchanged. In any case (the functions
  satisfying the composition contract) it changes \<^verbatim>\<open>at(j)\<close> for exactly the indices
  \<open>j\<close> of \<open>[0, n-1]\<close> with \<open>lo \<le> j \<le> hi\<close>, which are none when \<open>lo > hi\<close>.
\<close>

theorem update_outside_range:
  assumes "arr \<noteq> []" "\<forall>c\<in>set cs. valid_call (int (length arr)) c"
  shows "\<exists>t t'. reach ops arr cs = Some (Inr t) \<and> update_range ops t lo hi d = Some (Inr t') \<and>
      (int (length arr) - 1 < lo \<or> hi < 0 \<longrightarrow> t' = t) \<and>
      (compose_ok ops \<longrightarrow>
         (\<forall>j. 0 \<le> j \<and> j < int (length arr) \<longrightarrow>
            (\<exists>r t1 t2. at ops t j = Some (Inr (r, t1)) \<and>
               at ops t' j = Some (Inr (if lo \<le> j \<and> j \<le> hi
                                        then join_value_with_delta ops r d 1 else r, t2)))))"
proof -
  let ?n = "int (length arr)"
  let ?A = "\<lambda>j. logical ops cs j (arr ! nat j)"
  obtain t where t: "reach ops arr cs = Some (Inr t)" "shaped ?n t"
    "compose_ok ops \<longrightarrow> holds ops t 0 0 (?n - 1) ?A"
    using reach_ok [OF assms, of ops] by blast
  obtain t' where t': "update_range ops t lo hi d = Some (Inr t')" "shaped ?n t'"
    "?n - 1 < lo \<or> hi < 0 \<longrightarrow> t' = t"
    "compose_ok ops \<longrightarrow> holds ops t 0 0 (?n - 1) ?A \<longrightarrow>
       holds ops t' 0 0 (?n - 1) (upd ops lo hi d ?A)"
    using update_range_ok [OF t(2), of ops lo hi d ?A] by blast
  have reads: "\<exists>r t1 t2. at ops t j = Some (Inr (r, t1)) \<and>
      at ops t' j = Some (Inr (if lo \<le> j \<and> j \<le> hi then join_value_with_delta ops r d 1 else r, t2))"
    if c: "compose_ok ops" and j: "0 \<le> j \<and> j < ?n" for j
  proof -
    have j0: "0 \<le> j" and jn: "j < ?n" using j by simp_all
    obtain r t1 where r: "at ops t j = Some (Inr (r, t1))" "r = ?A j"
      using at_ok [OF t(2) j0 jn, of ops ?A] c t(3) by blast
    obtain r' t2 where r': "at ops t' j = Some (Inr (r', t2))" "r' = upd ops lo hi d ?A j"
      using at_ok [OF t'(2) j0 jn, of ops "upd ops lo hi d ?A"] c t(3) t'(4) by blast
    have "r' = (if lo \<le> j \<and> j \<le> hi then join_value_with_delta ops r d 1 else r)"
      unfolding r'(2) r(2) by (simp add: upd_def)
    then show ?thesis using r(1) r'(1) by blast
  qed
  show ?thesis using t(1) t'(1,3) reads by blast
qed

theorem update_outside_range_witness:
  "\<exists>t t'. reach default_ops [6, 2::int] [UpdateRange 0 1 5] = Some (Inr t) \<and>
      update_range default_ops t 2 0 9 = Some (Inr t') \<and> t' = t \<and>
      (\<exists>r t1 t2. at default_ops t 1 = Some (Inr (r, t1)) \<and> at default_ops t' 1 = Some (Inr (r, t2)))"
proof -
  obtain t t' where a: "reach default_ops [6, 2::int] [UpdateRange 0 1 5] = Some (Inr t)"
    "update_range default_ops t 2 0 9 = Some (Inr t')"
    "int (length [6, 2::int]) - 1 < 2 \<or> (0::int) < 0 \<longrightarrow> t' = t"
    "compose_ok (default_ops :: int ops) \<longrightarrow>
         (\<forall>j. 0 \<le> j \<and> j < int (length [6, 2::int]) \<longrightarrow>
            (\<exists>r t1 t2. at default_ops t j = Some (Inr (r, t1)) \<and>
               at default_ops t' j = Some (Inr (if 2 \<le> j \<and> j \<le> 0
                                        then join_value_with_delta default_ops r 9 1 else r, t2))))"
    using update_outside_range [of "[6, 2::int]" "[UpdateRange 0 1 5]" default_ops 2 0 9]
    by (simp del: ex_simps) blast
  have e: "t' = t" using a(3) by simp
  have "\<exists>r t1 t2. at default_ops t 1 = Some (Inr (r, t1)) \<and>
               at default_ops t' 1 = Some (Inr (if 2 \<le> (1::int) \<and> (1::int) \<le> 0
                                        then join_value_with_delta default_ops r 9 1 else r, t2))"
    using a(4) default_compose [where ?'a = int] by (elim impE allE [of _ 1]) simp_all
  then show ?thesis using a(1,2) e by auto
qed

text \<open>
  Claim C3 (the code fails it at \<open>n = 0\<close>). For size 0 both constructors call
  \<^verbatim>\<open>build(0, 0, -1, ...)\<close>, whose first recursive call is \<^verbatim>\<open>build(1, 0, 0, ...)\<close>: it
  writes \<^verbatim>\<open>value[1]\<close> of a vector of length 0.
\<close>

theorem construct_size_zero:
  "segment_tree_fill ops 0 v = Some (Inl OutOfBounds) \<and>
   segment_tree_iter ops [] = Some (Inl OutOfBounds)"
proof
  let ?t0 = "\<lparr>len = 0, value = [], delta = [], pending = []\<rparr> :: 'a segment_tree"
  have c: "cdiv (0 + (0 - 1)) 2 = 0" by (simp add: cdiv_def)
  have leaf: "build_fill ops 1 0 0 v ?t0 = Some (Inl OutOfBounds)"
    by (subst build_fill.simps) (simp add: vector_set_def)
  have "build_fill ops 0 0 (0 - 1) v ?t0 = Some (Inl OutOfBounds)"
    by (subst build_fill.simps) (simp only: c, simp add: leaf)
  then show "segment_tree_fill ops 0 v = Some (Inl OutOfBounds)"
    by (simp add: segment_tree_fill_def)
  have leaf': "build_iter ops 1 0 0 [] ?t0 = Some (Inl OutOfBounds)"
    by (subst build_iter.simps) (simp add: vector_set_def vector_get_def)
  have "build_iter ops 0 0 (0 - 1) [] ?t0 = Some (Inl OutOfBounds)"
    by (subst build_iter.simps) (simp only: c, simp add: leaf')
  then show "segment_tree_iter ops [] = Some (Inl OutOfBounds)"
    by (simp add: segment_tree_iter_def)
qed

text \<open>
  Claim C4. Immediately after construction from a sequence \<open>S\<close>, \<^verbatim>\<open>at(i)\<close> returns
  \<open>S[i]\<close> for every index \<open>0 \<le> i < n\<close> (for any choice of the three functions; the
  state has no pending delta and \<^verbatim>\<open>at\<close> leaves it as it is).
\<close>

theorem construction_fidelity:
  assumes "0 \<le> i" "i < int (length S)"
  shows "\<exists>t. segment_tree_iter ops S = Some (Inr t) \<and> size_tree t = int (length S) \<and>
      at ops t i = Some (Inr (S ! nat i, t))"
  by (rule at_after_construction [OF assms])

theorem construction_fidelity_witness:
  "\<exists>t. segment_tree_iter default_ops [6, -2, 1, 8, 10 :: int] = Some (Inr t) \<and>
      size_tree t = int (length [6, -2, 1, 8, 10 :: int]) \<and>
      at default_ops t 3 = Some (Inr ([6, -2, 1, 8, 10] ! nat 3, t))"
  by (rule construction_fidelity [of 3 "[6, -2, 1, 8, 10]" default_ops]) simp_all

text \<open>
  Claim C5. In every state reached by calls with in-range arguments, for
  \<open>0 \<le> lo \<le> mid < hi < n\<close>, \<^verbatim>\<open>query(lo, hi)\<close> is \<^verbatim>\<open>join_values\<close> of \<^verbatim>\<open>query(lo, mid)\<close>
  and \<^verbatim>\<open>query(mid + 1, hi)\<close>, the second sub-query run after the first or on the
  same state. The three functions are assumed to satisfy \<open>algebra_ok\<close>.
\<close>

theorem query_split:
  assumes "algebra_ok ops" "\<forall>c\<in>set cs. valid_call (int (length arr)) c"
    "0 \<le> lo" "lo \<le> mid" "mid < hi" "hi < int (length arr)"
  shows "\<exists>t r t' r1 t1 r2 t2 r3 t3. reach ops arr cs = Some (Inr t) \<and>
      query ops t lo hi = Some (Inr (r, t')) \<and>
      query ops t lo mid = Some (Inr (r1, t1)) \<and>
      query ops t1 (mid + 1) hi = Some (Inr (r2, t2)) \<and>
      query ops t (mid + 1) hi = Some (Inr (r3, t3)) \<and>
      r = join_values ops r1 r2 \<and> r = join_values ops r1 r3"
proof -
  let ?n = "int (length arr)"
  let ?A = "\<lambda>j. logical ops cs j (arr ! nat j)"
  let ?J = "\<lambda>a b. join_list (join_values ops) (map ?A [a..b])"
  note c = algebra_compose [OF assms(1)]
  have ne: "arr \<noteq> []" using assms(3-6) by auto
  obtain t where t: "reach ops arr cs = Some (Inr t)" "shaped ?n t"
    "holds ops t 0 0 (?n - 1) ?A" "good ops t 0 0 (?n - 1)"
    using reach_ok [OF ne assms(2), of ops] assms(1) c by blast
  have b: "lo \<le> hi" "mid < ?n" "0 \<le> mid + 1" "mid + 1 \<le> hi" using assms(3-6) by auto
  obtain r t' where q: "query ops t lo hi = Some (Inr (r, t'))" "r = ?J lo hi"
    using query_ok [OF t(2) assms(3) b(1) assms(6), of ops ?A] assms(1) c t(3,4) by blast
  obtain r1 t1 where q1: "query ops t lo mid = Some (Inr (r1, t1))" "shaped ?n t1"
    "holds ops t1 0 0 (?n - 1) ?A" "good ops t1 0 0 (?n - 1)" "r1 = ?J lo mid"
    using query_ok [OF t(2) assms(3,4) b(2), of ops ?A] assms(1) c t(3,4) by blast
  obtain r2 t2 where q2: "query ops t1 (mid + 1) hi = Some (Inr (r2, t2))" "r2 = ?J (mid + 1) hi"
    using query_ok [OF q1(2) b(3,4) assms(6), of ops ?A] assms(1) c q1(3,4) by blast
  obtain r3 t3 where q3: "query ops t (mid + 1) hi = Some (Inr (r3, t3))" "r3 = ?J (mid + 1) hi"
    using query_ok [OF t(2) b(3,4) assms(6), of ops ?A] assms(1) c t(3,4) by blast
  have "join_values ops (?J lo mid) (?J (mid + 1) hi) = ?J lo hi"
    by (rule join_list_split [OF assms(1,4,5)])
  then show ?thesis using t(1) q q1(1,5) q2 q3 by auto
qed

theorem query_split_witness:
  "\<exists>t r t' r1 t1 r2 t2 r3 t3.
      reach default_ops [6, -2, 1, 8, 10 :: int] [UpdateRange 2 4 4] = Some (Inr t) \<and>
      query default_ops t 0 3 = Some (Inr (r, t')) \<and>
      query default_ops t 0 1 = Some (Inr (r1, t1)) \<and>
      query default_ops t1 (1 + 1) 3 = Some (Inr (r2, t2)) \<and>
      query default_ops t (1 + 1) 3 = Some (Inr (r3, t3)) \<and>
      r = join_values default_ops r1 r2 \<and> r = join_values default_ops r1 r3"
  by (rule query_split [of default_ops "[UpdateRange 2 4 4]" "[6, -2, 1, 8, 10]" 0 1 3])
    (simp_all add: default_algebra)

text \<open>
  Claim C6. For functions satisfying the composition contract of the header comment, in
  every reachable state and for \<open>0 \<le> lo \<le> hi < n\<close>, \<^verbatim>\<open>update(lo, hi, d)\<close> gives at
  every index \<open>i\<close> of \<open>[lo, hi]\<close> the same \<^verbatim>\<open>at(i)\<close> as the point updates
  \<^verbatim>\<open>update(k, d)\<close> for \<open>k = lo, ..., hi\<close> made one after the other instead.
\<close>

theorem range_point_equivalence:
  assumes "compose_ok ops" "\<forall>c\<in>set cs. valid_call (int (length arr)) c"
    "0 \<le> lo" "lo \<le> hi" "hi < int (length arr)" "lo \<le> i" "i \<le> hi"
  shows "\<exists>t ta tb r ta' tb'. reach ops arr cs = Some (Inr t) \<and>
      update_range ops t lo hi d = Some (Inr ta) \<and>
      run ops (map (\<lambda>k. UpdatePoint k d) [lo..hi]) t = Some (Inr tb) \<and>
      at ops ta i = Some (Inr (r, ta')) \<and> at ops tb i = Some (Inr (r, tb'))"
proof -
  let ?n = "int (length arr)"
  let ?A = "\<lambda>j. logical ops cs j (arr ! nat j)"
  let ?ps = "map (\<lambda>k. UpdatePoint k d) [lo..hi]"
  have ne: "arr \<noteq> []" using assms(3-5) by auto
  have i: "0 \<le> i" "i < ?n" using assms(3-7) by auto
  obtain t where t: "reach ops arr cs = Some (Inr t)" "shaped ?n t" "holds ops t 0 0 (?n - 1) ?A"
    using reach_ok [OF ne assms(2), of ops] assms(1) by blast
  obtain ta where ta: "update_range ops t lo hi d = Some (Inr ta)" "shaped ?n ta"
    "holds ops ta 0 0 (?n - 1) (upd ops lo hi d ?A)"
    using update_range_ok [OF t(2), of ops lo hi d ?A] assms(1) t(3) by blast
  obtain ra ta' where ra: "at ops ta i = Some (Inr (ra, ta'))" "ra = upd ops lo hi d ?A i"
    using at_ok [OF ta(2) i, of ops "upd ops lo hi d ?A"] assms(1) ta(3) by blast
  have vp: "\<forall>c\<in>set ?ps. valid_call ?n c" using assms(3,5) by auto
  obtain tb where tb: "run ops ?ps t = Some (Inr tb)" "shaped ?n tb"
    "holds ops tb 0 0 (?n - 1) (\<lambda>j. logical ops ?ps j (?A j))"
    using run_ok [OF t(2) vp, of ops ?A] assms(1) t(3) by blast
  obtain rb tb' where rb: "at ops tb i = Some (Inr (rb, tb'))" "rb = logical ops ?ps i (?A i)"
    using at_ok [OF tb(2) i, of ops "\<lambda>j. logical ops ?ps j (?A j)"] assms(1) tb(3) by blast
  have "ra = rb"
    unfolding ra(2) rb(2) logical_points_hit [OF assms(6,7)] using assms(6,7) by (simp add: upd_def)
  then show ?thesis using t(1) ta(1) tb(1) ra(1) rb(1) by auto
qed

theorem range_point_equivalence_witness:
  "\<exists>t ta tb r ta' tb'. reach sum_ops [1, 1, 1, 1] [UpdateRange 0 3 2] = Some (Inr t) \<and>
      update_range sum_ops t 1 2 10 = Some (Inr ta) \<and>
      run sum_ops (map (\<lambda>k. UpdatePoint k 10) [1..2]) t = Some (Inr tb) \<and>
      at sum_ops ta 2 = Some (Inr (r, ta')) \<and> at sum_ops tb 2 = Some (Inr (r, tb'))"
  by (rule range_point_equivalence [of sum_ops "[UpdateRange 0 3 2]" "[1, 1, 1, 1]" 1 2 2 10])
    (simp_all add: algebra_compose [OF sum_algebra])

text \<open>
  Claim C7. With sum aggregation and increment deltas, the tree built from \<open>[1,1,1,1]\<close>
  answers, after \<^verbatim>\<open>update(0, 3, 2)\<close>, \<^verbatim>\<open>query(0, 3)\<close> with 12 and \<^verbatim>\<open>at(1)\<close> with 3
  (the latter both after the query and directly after the update).
\<close>

theorem sum_increment_scenario:
  "bindO (segment_tree_iter sum_ops [1, 1, 1, 1]) (\<lambda>t0.
   bindO (update_range sum_ops t0 0 3 2) (\<lambda>t1.
   bindO (query sum_ops t1 0 3) (\<lambda>(q, t2).
   bindO (at sum_ops t2 1) (\<lambda>(a, t3).
   bindO (at sum_ops t1 1) (\<lambda>(a', t4). Some (Inr (q, a, a'))))))) = Some (Inr (12, 3, 3))"
  by (simp add: segment_tree_iter_def update_range_def query_def at_def
      build_iter.simps query_rec.simps update_rec.simps update_delta_def
      bindO_def bindE_def vector_get_def vector_set_def cdiv_def sum_ops_def)

text \<open>
  Claim C8. In every state reached by calls with in-range arguments (the three
  functions satisfying \<open>algebra_ok\<close>), pushing all pending deltas down succeeds; after
  it the leaves hold the array that the history of calls describes, and every internal
  node stores \<^verbatim>\<open>join_values\<close> of the values stored in its two children.
\<close>

theorem lazy_invariant:
  assumes "algebra_ok ops" "arr \<noteq> []" "\<forall>c\<in>set cs. valid_call (int (length arr)) c"
  shows "\<exists>t t'. reach ops arr cs = Some (Inr t) \<and>
      push_all ops 0 0 (int (length arr) - 1) t = Inr t' \<and>
      leaves t' 0 0 (int (length arr) - 1)
        = map (\<lambda>j. logical ops cs j (arr ! nat j)) [0..int (length arr) - 1] \<and>
      aggregates_ok ops t' 0 0 (int (length arr) - 1)"
proof -
  let ?n = "int (length arr)"
  let ?A = "\<lambda>j. logical ops cs j (arr ! nat j)"
  note c = algebra_compose [OF assms(1)]
  obtain t where t: "reach ops arr cs = Some (Inr t)" "shaped ?n t"
    "holds ops t 0 0 (?n - 1) ?A" "good ops t 0 0 (?n - 1)"
    using reach_ok [OF assms(2,3), of ops] assms(1) c by blast
  have n1: "1 \<le> ?n" using assms(2) by (cases arr) simp_all
  have n2: "sized (4 * ?n) t" using t(2) by (simp add: shaped_def)
  note n = n1 n2
  have le: "0 \<le> ?n - 1" using n(1) by linarith
  obtain t' where t': "push_all ops 0 0 (?n - 1) t = Inr t'" "no_pending t' 0 0 (?n - 1)"
    "holds ops t' 0 0 (?n - 1) ?A" "good ops t' 0 0 (?n - 1)"
    using push_all_ok [OF fits_root [OF n(1)] order_refl le n(2), of ops ?A] assms(1) c t(3,4)
    by blast
  from clean_view [OF t'(2), of ops] t'(3,4)
  have "leaves t' 0 0 (?n - 1) = map ?A [0..?n - 1]" "aggregates_ok ops t' 0 0 (?n - 1)"
    by (simp_all add: holds_def)
  then show ?thesis using t(1) t'(1) by blast
qed

theorem lazy_invariant_witness:
  "\<exists>t t'. reach sum_ops [1, 1, 1, 1] [UpdateRange 0 3 2, UpdatePoint 1 5, Query 1 2] = Some (Inr t) \<and>
      push_all sum_ops 0 0 (int (length [1, 1, 1, 1 :: int]) - 1) t = Inr t' \<and>
      leaves t' 0 0 (int (length [1, 1, 1, 1 :: int]) - 1)
        = map (\<lambda>j. logical sum_ops [UpdateRange 0 3 2, UpdatePoint 1 5, Query 1 2] j
                 ([1, 1, 1, 1] ! nat j)) [0..int (length [1, 1, 1, 1 :: int]) - 1] \<and>
      aggregates_ok sum_ops t' 0 0 (int (length [1, 1, 1, 1 :: int]) - 1)"
  by (rule lazy_invariant [of sum_ops "[1, 1, 1, 1]"
        "[UpdateRange 0 3 2, UpdatePoint 1 5, Query 1 2]"]) (simp_all add: sum_algebra)

text \<open>
  Claim C9. For \<open>0 \<le> lo \<le> hi < n\<close>, \<^verbatim>\<open>query(lo, hi)\<close> leaves the array as it is: at every
  index \<open>j\<close>, \<^verbatim>\<open>at(j)\<close> returns the same value before and after the query.
\<close>

theorem query_keeps_array:
  assumes "compose_ok ops" "\<forall>c\<in>set cs. valid_call (int (length arr)) c"
    "0 \<le> lo" "lo \<le> hi" "hi < int (length arr)" "0 \<le> j" "j < int (length arr)"
  shows "\<exists>t q t' r t1 t2. reach ops arr cs = Some (Inr t) \<and>
      query ops t lo hi = Some (Inr (q, t')) \<and>
      at ops t j = Some (Inr (r, t1)) \<and> at ops t' j = Some (Inr (r, t2))"
proof -
  let ?n = "int (length arr)"
  let ?A = "\<lambda>j. logical ops cs j (arr ! nat j)"
  have ne: "arr \<noteq> []" using assms(6,7) by auto
  obtain t where t: "reach ops arr cs = Some (Inr t)" "shaped ?n t" "holds ops t 0 0 (?n - 1) ?A"
    using reach_ok [OF ne assms(2), of ops] assms(1) by blast
  obtain q t' where q: "query ops t lo hi = Some (Inr (q, t'))" "shaped ?n t'"
    "holds ops t' 0 0 (?n - 1) ?A"
    using query_ok [OF t(2) assms(3-5), of ops ?A] assms(1) t(3) by blast
  obtain r t1 where r: "at ops t j = Some (Inr (r, t1))" "r = ?A j"
    using at_ok [OF t(2) assms(6,7), of ops ?A] assms(1) t(3) by blast
  obtain r' t2 where r': "at ops t' j = Some (Inr (r', t2))" "r' = ?A j"
    using at_ok [OF q(2) assms(6,7), of ops ?A] assms(1) q(3) by blast
  show ?thesis using t(1) q(1) r r' by auto
qed

theorem query_keeps_array_witness:
  "\<exists>t q t' r t1 t2. reach default_ops [6, -2, 1, 8, 10 :: int] [UpdateRange 2 4 4] = Some (Inr t) \<and>
      query default_ops t 0 3 = Some (Inr (q, t')) \<and>
      at default_ops t 4 = Some (Inr (r, t1)) \<and> at default_ops t' 4 = Some (Inr (r, t2))"
  by (rule query_keeps_array [of default_ops "[UpdateRange 2 4 4]" "[6, -2, 1, 8, 10]" 0 3 4])
    (simp_all add: default_compose)



end
